theory Spec2Isabelle
  imports Complex_Main "HOL-Library.AList"
begin

section \<open>The bounded expiring cache (src/utils/cache.ts)\<close>

text \<open>
  \<^verbatim>\<open>SimpleCache<T>\<close> wraps a JavaScript \<^verbatim>\<open>Map<string, CacheEntry<T>>\<close>. A \<^verbatim>\<open>Map\<close>
  iterates in insertion order, \<^verbatim>\<open>Map.set\<close> on a key that is present replaces the value in
  place and on a new key appends, and \<^verbatim>\<open>Map.delete\<close> removes the key. The model is an
  association list in insertion order: \<open>AList.update\<close> and \<open>AList.delete\<close> are exactly these
  two operations, \<open>map_of\<close> is \<^verbatim>\<open>Map.get\<close>.

  Time is \<^verbatim>\<open>Date.now()\<close>, an integer number of milliseconds; every cache operation takes
  the reading of the clock as its argument \<open>now\<close>. The TTL in seconds and the maximum
  size are integers of either sign: the constructor and \<^verbatim>\<open>set\<close> compare them with 0 only, and
  the configuration tests pass \<^verbatim>\<open>CACHE_TTL_SECONDS = "-300"\<close> and \<^verbatim>\<open>CACHE_MAX_SIZE = "-100"\<close>
  through unchanged.
\<close>

record 'v CacheEntry =
  entry_value :: 'v
  expiresAt :: int

record 'v SimpleCache =
  cache :: "(string \<times> 'v CacheEntry) list"
  ttlMs :: int
  maxSize :: int

definition new_SimpleCache :: "int \<Rightarrow> int \<Rightarrow> 'v SimpleCache" where
  "new_SimpleCache ttlSeconds mx =
     \<lparr>cache = [], ttlMs = ttlSeconds * 1000, maxSize = mx\<rparr>"

text \<open>\<^verbatim>\<open>cleanup\<close>: delete every entry with \<^verbatim>\<open>now > entry.expiresAt\<close>.\<close>

definition cleanup :: "int \<Rightarrow> 'v SimpleCache \<Rightarrow> 'v SimpleCache" where
  "cleanup now c = c\<lparr>cache := filter (\<lambda>(k, e). \<not> now > expiresAt e) (cache c)\<rparr>"

text \<open>
  The eviction step of \<^verbatim>\<open>set\<close>: \<^verbatim>\<open>firstKey = this.cache.keys().next().value\<close>, deleted only
  \<^verbatim>\<open>if (firstKey)\<close>. The test is JavaScript truthiness: it fails for \<^verbatim>\<open>undefined\<close> (an empty
  map) and also for the empty string.
\<close>

definition evict_oldest :: "'v SimpleCache \<Rightarrow> 'v SimpleCache" where
  "evict_oldest c =
     (case cache c of
        [] \<Rightarrow> c
      | (firstKey, e) # rest \<Rightarrow>
          if firstKey \<noteq> [] then c\<lparr>cache := AList.delete firstKey (cache c)\<rparr> else c)"

definition SimpleCache_set :: "int \<Rightarrow> string \<Rightarrow> 'v \<Rightarrow> 'v SimpleCache \<Rightarrow> 'v SimpleCache" where
  "SimpleCache_set now key v c =
     (if maxSize c = 0 \<or> ttlMs c = 0 then c
      else
        let c1 = (if int (length (cache c)) \<ge> maxSize c then cleanup now c else c);
            c2 = (if int (length (cache c1)) \<ge> maxSize c1 then evict_oldest c1 else c1)
        in c2\<lparr>cache := AList.update key \<lparr>entry_value = v, expiresAt = now + ttlMs c\<rparr> (cache c2)\<rparr>)"

text \<open>\<^verbatim>\<open>get\<close> returns the value and the cache, which loses the entry when it has expired.\<close>

definition SimpleCache_get :: "int \<Rightarrow> string \<Rightarrow> 'v SimpleCache \<Rightarrow> 'v option \<times> 'v SimpleCache" where
  "SimpleCache_get now key c =
     (case map_of (cache c) key of
        None \<Rightarrow> (None, c)
      | Some entry \<Rightarrow>
          if now > expiresAt entry then (None, c\<lparr>cache := AList.delete key (cache c)\<rparr>)
          else (Some (entry_value entry), c))"

definition SimpleCache_has :: "int \<Rightarrow> string \<Rightarrow> 'v SimpleCache \<Rightarrow> bool \<times> 'v SimpleCache" where
  "SimpleCache_has now key c = (case SimpleCache_get now key c of (r, c') \<Rightarrow> (r \<noteq> None, c'))"

definition SimpleCache_delete :: "string \<Rightarrow> 'v SimpleCache \<Rightarrow> bool \<times> 'v SimpleCache" where
  "SimpleCache_delete key c =
     (map_of (cache c) key \<noteq> None, c\<lparr>cache := AList.delete key (cache c)\<rparr>)"

definition SimpleCache_clear :: "'v SimpleCache \<Rightarrow> 'v SimpleCache" where
  "SimpleCache_clear c = c\<lparr>cache := []\<rparr>"

definition SimpleCache_size :: "int \<Rightarrow> 'v SimpleCache \<Rightarrow> nat \<times> 'v SimpleCache" where
  "SimpleCache_size now c = (let c' = cleanup now c in (length (cache c'), c'))"


section \<open>Items, users and search parameters (src/types/hackernews.ts)\<close>

text \<open>
  An optional field of an interface is an \<open>option\<close>; numbers are integers (ids, unix
  seconds, scores). Field names carry a prefix where the source's name is a keyword or a
  constant of HOL (\<^verbatim>\<open>id\<close>, \<^verbatim>\<open>by\<close>, \<^verbatim>\<open>type\<close>).
\<close>

datatype ItemType = Job | Story | Comment | Poll | PollOpt | Ask | Show

record HackerNewsItem =
  item_id :: int
  item_deleted :: "bool option"
  item_type :: "ItemType option"
  item_by :: "string option"
  item_time :: "int option"
  item_text :: "string option"
  item_dead :: "bool option"
  item_parent :: "int option"
  item_poll :: "int option"
  item_kids :: "int list option"
  item_url :: "string option"
  item_score :: "int option"
  item_title :: "string option"
  item_parts :: "int list option"
  item_descendants :: "int option"

record HackerNewsUser =
  user_id :: string
  user_delay :: "int option"
  user_created :: int
  user_karma :: int
  user_about :: "string option"
  user_submitted :: "int list option"

record HackerNewsUpdates =
  upd_items :: "int list"
  upd_profiles :: "string list"


record StoryWithMetadata = HackerNewsItem +
  commentCount :: int
  ageHours :: rat
  domain :: "string option"

record UserWithStats = HackerNewsUser +
  averageScore :: "rat option"
  topStories :: "HackerNewsItem list"
  recentActivity :: "HackerNewsItem list"

subsection \<open>JavaScript helpers\<close>


definition truthy_number :: "int option \<Rightarrow> bool" where
  "truthy_number n = (case n of None \<Rightarrow> False | Some x \<Rightarrow> x \<noteq> 0)"

text \<open>\<^verbatim>\<open>x || 0\<close> on an optional number.\<close>

definition or_zero :: "int option \<Rightarrow> int" where
  "or_zero n = (case n of None \<Rightarrow> 0 | Some x \<Rightarrow> x)"

text \<open>Template literals print numbers in decimal.\<close>

definition digit_char :: "nat \<Rightarrow> char" where
  "digit_char d = char_of (48 + d)"

function show_nat :: "nat \<Rightarrow> string" where
  "show_nat n = (if n < 10 then [digit_char n] else show_nat (n div 10) @ [digit_char (n mod 10)])"
  by pat_completeness auto
termination
  by (relation "measure (\<lambda>n. n)") auto

declare show_nat.simps [simp del]

definition show_int :: "int \<Rightarrow> string" where
  "show_int i = (if i < 0 then CHR ''-'' # show_nat (nat (- i)) else show_nat (nat i))"




section \<open>The API client (src/api/client.ts)\<close>

subsection \<open>Errors and the network\<close>

text \<open>
  The values the code throws: a plain \<^verbatim>\<open>Error\<close> with a message (a transport failure
  of \<^verbatim>\<open>fetch\<close>, a JSON decode failure) and \<^verbatim>\<open>HackerNewsClientError(message, statusCode?)\<close>.
\<close>

datatype error =
    Error string
  | HackerNewsClientError string "nat option"

fun message :: "error \<Rightarrow> string" where
  "message (Error m) = m"
| "message (HackerNewsClientError m sc) = m"

fun statusCode :: "error \<Rightarrow> nat option" where
  "statusCode (Error m) = None"
| "statusCode (HackerNewsClientError m sc) = sc"

fun is_HackerNewsClientError :: "error \<Rightarrow> bool" where
  "is_HackerNewsClientError (Error m) = False"
| "is_HackerNewsClientError (HackerNewsClientError m sc) = True"

text \<open>
  What one \<^verbatim>\<open>fetch\<close> does: it rejects with an \<^verbatim>\<open>Error\<close>, or the abort timer fires first
  (\<^verbatim>\<open>fetch\<close> rejects with an \<^verbatim>\<open>AbortError\<close>), or a response arrives with a status, a
  status text and a body on which \<^verbatim>\<open>response.json()\<close> either throws or yields a value.
  The upstream is a function from the resource asked for to that outcome.
\<close>

datatype 'a body = InvalidJson string | Json 'a

datatype 'a outcome =
    Rejected string
  | TimedOut
  | Response nat string "'a body"

record upstream =
  item_response :: "int \<Rightarrow> HackerNewsItem option outcome"
  user_response :: "string \<Rightarrow> HackerNewsUser option outcome"
  list_response :: "string \<Rightarrow> int list outcome"
  maxitem_response :: "int outcome"
  updates_response :: "HackerNewsUpdates outcome"
  url_hostname :: "string \<Rightarrow> string option"

text \<open>
  \<open>url_hostname\<close> stands for \<^verbatim>\<open>new URL(url).hostname\<close>, \<open>None\<close> when the constructor
  throws.
\<close>

subsection \<open>The client's state\<close>

text \<open>
  The fields of \<^verbatim>\<open>HackerNewsClient\<close>, and \<open>requests\<close>: the URLs handed to \<^verbatim>\<open>fetch\<close> so
  far, oldest first (what the tests read from the mock). One client operation reads the
  clock once: \<open>now\<close> is its argument. The timeout and the cache options are integers of
  either sign, as the configuration hands them over; \<^verbatim>\<open>Math.floor(maxSize / 10)\<close> is \<open>div\<close>
  on the integers, which rounds down.
\<close>

record HackerNewsClientOptions =
  opt_baseUrl :: string
  opt_timeout :: int
  cacheOptions :: "(int \<times> int) option"

record HackerNewsClient =
  baseUrl :: string
  timeout :: int
  itemCache :: "HackerNewsItem SimpleCache"
  userCache :: "HackerNewsUser SimpleCache"
  listCache :: "int list SimpleCache"
  requests :: "string list"

definition strip_trailing_slash :: "string \<Rightarrow> string" where
  "strip_trailing_slash s = (if s \<noteq> [] \<and> last s = CHR ''/'' then butlast s else s)"

definition new_HackerNewsClient :: "HackerNewsClientOptions \<Rightarrow> HackerNewsClient" where
  "new_HackerNewsClient options =
     (case (case cacheOptions options of None \<Rightarrow> (300, 1000) | Some p \<Rightarrow> p) of
        (ttlSeconds, mx) \<Rightarrow>
          \<lparr>baseUrl = strip_trailing_slash (opt_baseUrl options),
           timeout = opt_timeout options,
           itemCache = new_SimpleCache ttlSeconds mx,
           userCache = new_SimpleCache ttlSeconds mx,
           listCache = new_SimpleCache ttlSeconds (mx div 10),
           requests = []\<rparr>)"

definition response_ok :: "nat \<Rightarrow> bool" where
  "response_ok status = (200 \<le> status \<and> status \<le> 299)"

definition fetchWithTimeout ::
  "HackerNewsClient \<Rightarrow> string \<Rightarrow> 'a outcome \<Rightarrow> (error + 'a body) \<times> HackerNewsClient" where
  "fetchWithTimeout c url out =
     ((case out of
         Rejected msg \<Rightarrow> Inl (Error msg)
       | TimedOut \<Rightarrow>
           Inl (HackerNewsClientError (''Request timeout after '' @ show_int (timeout c) @ ''ms'') None)
       | Response status statusText b \<Rightarrow>
           if \<not> response_ok status
           then Inl (HackerNewsClientError
                       (''HTTP '' @ show_nat status @ '': '' @ statusText) (Some status))
           else Inr b),
      c\<lparr>requests := requests c @ [url]\<rparr>)"

text \<open>
  The \<^verbatim>\<open>catch\<close> block every operation has:
  \<^verbatim>\<open>throw new HackerNewsClientError(`Failed to fetch ...: ${error.message}`)\<close>, with no
  second argument.
\<close>

definition failed_to_fetch :: "string \<Rightarrow> error \<Rightarrow> error" where
  "failed_to_fetch what e =
     HackerNewsClientError (''Failed to fetch '' @ what @ '': '' @ message e) None"

text \<open>\<^verbatim>\<open>await response.json()\<close> inside the \<^verbatim>\<open>try\<close>.\<close>

definition parse_json :: "error + 'a body \<Rightarrow> error + 'a" where
  "parse_json r =
     (case r of
        Inl e \<Rightarrow> Inl e
      | Inr (InvalidJson m) \<Rightarrow> Inl (Error m)
      | Inr (Json v) \<Rightarrow> Inr v)"

subsection \<open>Primitive operations\<close>

definition item_key :: "int \<Rightarrow> string" where
  "item_key i = ''item:'' @ show_int i"

definition item_request :: "string \<Rightarrow> int \<Rightarrow> string" where
  "item_request base i = base @ ''/item/'' @ show_int i @ ''.json''"

text \<open>
  \<^verbatim>\<open>getItem\<close> runs in two stretches. Up to its first \<^verbatim>\<open>await\<close> it looks the key up in
  the item cache and, on a miss, hands the request to \<^verbatim>\<open>fetch\<close> (\<open>getItem_start\<close>); when
  the fetch has settled it decodes the body, stores a non-null item and returns, or
  wraps whatever was thrown (\<open>getItem_finish\<close>). \<^verbatim>\<open>if (cached)\<close> and \<^verbatim>\<open>if (item)\<close> test an
  object or \<^verbatim>\<open>null\<close>/\<^verbatim>\<open>undefined\<close>.
\<close>

datatype ('a, 'b) started = Hit 'a | Miss "error + 'b body"

definition getItem_start ::
  "upstream \<Rightarrow> int \<Rightarrow> HackerNewsClient \<Rightarrow> int \<Rightarrow>
     (HackerNewsItem, HackerNewsItem option) started \<times> HackerNewsClient" where
  "getItem_start up now c i =
     (case SimpleCache_get now (item_key i) (itemCache c) of
        (Some cached, ic) \<Rightarrow> (Hit cached, c\<lparr>itemCache := ic\<rparr>)
      | (None, ic) \<Rightarrow>
          (case fetchWithTimeout (c\<lparr>itemCache := ic\<rparr>) (item_request (baseUrl c) i) (item_response up i) of
             (r, c') \<Rightarrow> (Miss r, c')))"

definition getItem_finish ::
  "int \<Rightarrow> HackerNewsClient \<Rightarrow> int \<Rightarrow> error + HackerNewsItem option body \<Rightarrow>
     (error + HackerNewsItem option) \<times> HackerNewsClient" where
  "getItem_finish now c i r =
     (case parse_json r of
        Inl e \<Rightarrow> (Inl (failed_to_fetch (''item '' @ show_int i) e), c)
      | Inr None \<Rightarrow> (Inr None, c)
      | Inr (Some item) \<Rightarrow>
          (Inr (Some item), c\<lparr>itemCache := SimpleCache_set now (item_key i) item (itemCache c)\<rparr>))"

definition getItem ::
  "upstream \<Rightarrow> int \<Rightarrow> HackerNewsClient \<Rightarrow> int \<Rightarrow>
     (error + HackerNewsItem option) \<times> HackerNewsClient" where
  "getItem up now c i =
     (case getItem_start up now c i of
        (Hit cached, c1) \<Rightarrow> (Inr (Some cached), c1)
      | (Miss r, c1) \<Rightarrow> getItem_finish now c1 i r)"

definition getUser ::
  "upstream \<Rightarrow> int \<Rightarrow> HackerNewsClient \<Rightarrow> string \<Rightarrow>
     (error + HackerNewsUser option) \<times> HackerNewsClient" where
  "getUser up now c u =
     (case SimpleCache_get now (''user:'' @ u) (userCache c) of
        (Some cached, uc) \<Rightarrow> (Inr (Some cached), c\<lparr>userCache := uc\<rparr>)
      | (None, uc) \<Rightarrow>
          (case fetchWithTimeout (c\<lparr>userCache := uc\<rparr>) (baseUrl c @ ''/user/'' @ u @ ''.json'')
                  (user_response up u) of
             (r, c1) \<Rightarrow>
               (case parse_json r of
                  Inl e \<Rightarrow> (Inl (failed_to_fetch (''user '' @ u) e), c1)
                | Inr None \<Rightarrow> (Inr None, c1)
                | Inr (Some user) \<Rightarrow>
                    (Inr (Some user),
                     c1\<lparr>userCache := SimpleCache_set now (''user:'' @ u) user (userCache c1)\<rparr>))))"

definition getMaxItemId ::
  "upstream \<Rightarrow> HackerNewsClient \<Rightarrow> (error + int) \<times> HackerNewsClient" where
  "getMaxItemId up c =
     (case fetchWithTimeout c (baseUrl c @ ''/maxitem.json'') (maxitem_response up) of
        (r, c1) \<Rightarrow>
          (case parse_json r of
             Inl e \<Rightarrow> (Inl (failed_to_fetch ''max item ID'' e), c1)
           | Inr n \<Rightarrow> (Inr n, c1)))"

text \<open>
  \<^verbatim>\<open>getStoryList\<close>: the cached value is an array, truthy also when empty; the decoded
  list is handed to the list cache unconditionally.
\<close>

definition getStoryList ::
  "upstream \<Rightarrow> int \<Rightarrow> HackerNewsClient \<Rightarrow> string \<Rightarrow>
     (error + int list) \<times> HackerNewsClient" where
  "getStoryList up now c endpoint =
     (case SimpleCache_get now (''list:'' @ endpoint) (listCache c) of
        (Some cached, lc) \<Rightarrow> (Inr cached, c\<lparr>listCache := lc\<rparr>)
      | (None, lc) \<Rightarrow>
          (case fetchWithTimeout (c\<lparr>listCache := lc\<rparr>) (baseUrl c @ ''/'' @ endpoint @ ''.json'')
                  (list_response up endpoint) of
             (r, c1) \<Rightarrow>
               (case parse_json r of
                  Inl e \<Rightarrow> (Inl (failed_to_fetch endpoint e), c1)
                | Inr stories \<Rightarrow>
                    (Inr stories,
                     c1\<lparr>listCache :=
                          SimpleCache_set now (''list:'' @ endpoint) stories (listCache c1)\<rparr>))))"

definition getTopStories ::
  "upstream \<Rightarrow> int \<Rightarrow> HackerNewsClient \<Rightarrow> (error + int list) \<times> HackerNewsClient" where
  "getTopStories up now c = getStoryList up now c ''topstories''"

definition getNewStories ::
  "upstream \<Rightarrow> int \<Rightarrow> HackerNewsClient \<Rightarrow> (error + int list) \<times> HackerNewsClient" where
  "getNewStories up now c = getStoryList up now c ''newstories''"

definition getBestStories ::
  "upstream \<Rightarrow> int \<Rightarrow> HackerNewsClient \<Rightarrow> (error + int list) \<times> HackerNewsClient" where
  "getBestStories up now c = getStoryList up now c ''beststories''"

definition getAskStories ::
  "upstream \<Rightarrow> int \<Rightarrow> HackerNewsClient \<Rightarrow> (error + int list) \<times> HackerNewsClient" where
  "getAskStories up now c = getStoryList up now c ''askstories''"

definition getShowStories ::
  "upstream \<Rightarrow> int \<Rightarrow> HackerNewsClient \<Rightarrow> (error + int list) \<times> HackerNewsClient" where
  "getShowStories up now c = getStoryList up now c ''showstories''"

definition getJobStories ::
  "upstream \<Rightarrow> int \<Rightarrow> HackerNewsClient \<Rightarrow> (error + int list) \<times> HackerNewsClient" where
  "getJobStories up now c = getStoryList up now c ''jobstories''"

definition getUpdates ::
  "upstream \<Rightarrow> HackerNewsClient \<Rightarrow> (error + HackerNewsUpdates) \<times> HackerNewsClient" where
  "getUpdates up c =
     (case fetchWithTimeout c (baseUrl c @ ''/updates.json'') (updates_response up) of
        (r, c1) \<Rightarrow>
          (case parse_json r of
             Inl e \<Rightarrow> (Inl (failed_to_fetch ''updates'' e), c1)
           | Inr u \<Rightarrow> (Inr u, c1)))"

subsection \<open>Fetching a batch: \<^verbatim>\<open>Promise.all(ids.map(id => this.getItem(id)))\<close>\<close>

text \<open>
  \<^verbatim>\<open>map\<close> calls \<^verbatim>\<open>getItem\<close> on every id in order, and each call runs to its first
  \<^verbatim>\<open>await\<close> before the next one starts: all cache lookups and all requests come first
  (\<open>start_all\<close>). The fetches then settle; the model lets them settle in the order of the
  ids (\<open>finish_all\<close>). \<^verbatim>\<open>Promise.all\<close> resolves to the values in the order of the ids, or
  rejects with a rejection of one of the calls: the first in the order of the ids
  (\<open>all_settled\<close>). The other calls run to their end all the same.
\<close>

fun start_all ::
  "upstream \<Rightarrow> int \<Rightarrow> HackerNewsClient \<Rightarrow> int list \<Rightarrow>
     (HackerNewsItem, HackerNewsItem option) started list \<times> HackerNewsClient" where
  "start_all up now c [] = ([], c)"
| "start_all up now c (i # ids) =
     (case getItem_start up now c i of
        (p, c1) \<Rightarrow> (case start_all up now c1 ids of (ps, c2) \<Rightarrow> (p # ps, c2)))"

fun finish_all ::
  "int \<Rightarrow> HackerNewsClient \<Rightarrow> (int \<times> (HackerNewsItem, HackerNewsItem option) started) list \<Rightarrow>
     (error + HackerNewsItem option) list \<times> HackerNewsClient" where
  "finish_all now c [] = ([], c)"
| "finish_all now c ((i, Hit cached) # rest) =
     (case finish_all now c rest of (rs, c1) \<Rightarrow> (Inr (Some cached) # rs, c1))"
| "finish_all now c ((i, Miss r) # rest) =
     (case getItem_finish now c i r of
        (x, c1) \<Rightarrow> (case finish_all now c1 rest of (rs, c2) \<Rightarrow> (x # rs, c2)))"

fun all_settled :: "(error + 'a) list \<Rightarrow> error + 'a list" where
  "all_settled [] = Inr []"
| "all_settled (Inl e # rs) = Inl e"
| "all_settled (Inr v # rs) = (case all_settled rs of Inl e \<Rightarrow> Inl e | Inr vs \<Rightarrow> Inr (v # vs))"

definition Promise_all_getItem ::
  "upstream \<Rightarrow> int \<Rightarrow> HackerNewsClient \<Rightarrow> int list \<Rightarrow>
     (error + HackerNewsItem option list) \<times> HackerNewsClient" where
  "Promise_all_getItem up now c ids =
     (case start_all up now c ids of
        (ps, c1) \<Rightarrow> (case finish_all now c1 (zip ids ps) of (rs, c2) \<Rightarrow> (all_settled rs, c2)))"

subsection \<open>Composite operations\<close>

definition extractDomain :: "upstream \<Rightarrow> string \<Rightarrow> string option" where
  "extractDomain up url = url_hostname up url"

definition getStoryWithMetadata ::
  "upstream \<Rightarrow> int \<Rightarrow> HackerNewsClient \<Rightarrow> int \<Rightarrow>
     (error + StoryWithMetadata option) \<times> HackerNewsClient" where
  "getStoryWithMetadata up now c i =
     (case getItem up now c i of
        (Inl e, c1) \<Rightarrow> (Inl e, c1)
      | (Inr None, c1) \<Rightarrow> (Inr None, c1)
      | (Inr (Some item), c1) \<Rightarrow>
          if item_type item \<noteq> Some Story then (Inr None, c1)
          else
            (Inr (Some (HackerNewsItem.extend item
               (StoryWithMetadata.fields
                  (or_zero (item_descendants item))
                  (if truthy_number (item_time item)
                   then (rat_of_int now / 1000 - rat_of_int (or_zero (item_time item))) / 3600
                   else 0)
                  (case item_url item of
                     None \<Rightarrow> None
                   | Some url \<Rightarrow> if url \<noteq> [] then extractDomain up url else None)))),
             c1))"

fun non_null :: "'a option list \<Rightarrow> 'a list" where
  "non_null [] = []"
| "non_null (None # xs) = non_null xs"
| "non_null (Some x # xs) = x # non_null xs"

definition getUserWithStats ::
  "upstream \<Rightarrow> int \<Rightarrow> HackerNewsClient \<Rightarrow> string \<Rightarrow>
     (error + UserWithStats option) \<times> HackerNewsClient" where
  "getUserWithStats up now c u =
     (case getUser up now c u of
        (Inl e, c1) \<Rightarrow> (Inl e, c1)
      | (Inr None, c1) \<Rightarrow> (Inr None, c1)
      | (Inr (Some user), c1) \<Rightarrow>
          (case Promise_all_getItem up now c1
                  (case user_submitted user of None \<Rightarrow> [] | Some sub \<Rightarrow> take 10 sub) of
             (Inl e, c2) \<Rightarrow> (Inl e, c2)
           | (Inr recentItems, c2) \<Rightarrow>
               let validItems = non_null recentItems;
                   stories = filter (\<lambda>item. item_type item = Some Story) validItems
               in (Inr (Some (HackerNewsUser.extend user
                     (UserWithStats.fields
                        (if length stories > 0
                         then Some (rat_of_int (sum_list (map (\<lambda>story. or_zero (item_score story)) stories))
                                      / rat_of_nat (length stories))
                         else None)
                        (take 5 stories)
                        (take 5 validItems)))),
                   c2)))"





text \<open>
  \<^verbatim>\<open>loadCommentsRecursively\<close> follows the \<^verbatim>\<open>kids\<close> the upstream returns, and nothing
  bounds how deep that goes: the model counts the depth of the recursion down from
  \<open>fuel\<close> and returns \<open>None\<close> when it is used up. The array \<^verbatim>\<open>comments\<close>, which the source
  extends in place, is passed along and returned. \<open>forComments\<close> is the inner
  \<^verbatim>\<open>for (const comment of batchComments)\<close>.
\<close>

function loadCommentsRecursively ::
  "nat \<Rightarrow> upstream \<Rightarrow> int \<Rightarrow> HackerNewsClient \<Rightarrow> int list \<Rightarrow> nat \<Rightarrow> HackerNewsItem list \<Rightarrow>
     ((error + HackerNewsItem list) \<times> HackerNewsClient) option"
and forComments ::
  "nat \<Rightarrow> upstream \<Rightarrow> int \<Rightarrow> HackerNewsClient \<Rightarrow> HackerNewsItem option list \<Rightarrow> HackerNewsItem list \<Rightarrow>
     ((error + HackerNewsItem list) \<times> HackerNewsClient) option" where
  "loadCommentsRecursively fuel up now c kidIds i comments =
     (if i < length kidIds then
        (case Promise_all_getItem up now c (take 5 (drop i kidIds)) of
           (Inl e, c1) \<Rightarrow> Some (Inl e, c1)
         | (Inr batchComments, c1) \<Rightarrow>
             (case forComments fuel up now c1 batchComments comments of
                None \<Rightarrow> None
              | Some (Inl e, c2) \<Rightarrow> Some (Inl e, c2)
              | Some (Inr comments', c2) \<Rightarrow>
                  loadCommentsRecursively fuel up now c2 kidIds (i + 5) comments'))
      else Some (Inr comments, c))"
| "forComments fuel up now c [] comments = Some (Inr comments, c)"
| "forComments fuel up now c (x # rest) comments =
     (case x of
        None \<Rightarrow> forComments fuel up now c rest comments
      | Some comment \<Rightarrow>
          if item_type comment = Some Comment then
            (case item_kids comment of
               None \<Rightarrow> forComments fuel up now c rest (comments @ [comment])
             | Some kids \<Rightarrow>
                 (case fuel of
                    0 \<Rightarrow> None
                  | Suc f \<Rightarrow>
                      (case loadCommentsRecursively f up now c kids 0 (comments @ [comment]) of
                         None \<Rightarrow> None
                       | Some (Inl e, c1) \<Rightarrow> Some (Inl e, c1)
                       | Some (Inr comments', c1) \<Rightarrow> forComments fuel up now c1 rest comments')))
          else forComments fuel up now c rest comments)"
  by pat_completeness auto
termination
  by (relation "measures
        [(\<lambda>x. case x of Inl (fuel, up, now, c, kidIds, i, comments) \<Rightarrow> fuel
                       | Inr (fuel, up, now, c, items, comments) \<Rightarrow> fuel),
         (\<lambda>x. case x of Inl a \<Rightarrow> 1 | Inr b \<Rightarrow> 0),
         (\<lambda>x. case x of Inl (fuel, up, now, c, kidIds, i, comments) \<Rightarrow> length kidIds - i
                       | Inr (fuel, up, now, c, items, comments) \<Rightarrow> length items)]")
     auto

declare loadCommentsRecursively.simps [simp del]

definition getCommentTree ::
  "nat \<Rightarrow> upstream \<Rightarrow> int \<Rightarrow> HackerNewsClient \<Rightarrow> int \<Rightarrow>
     ((error + HackerNewsItem list) \<times> HackerNewsClient) option" where
  "getCommentTree fuel up now c itemId =
     (case getItem up now c itemId of
        (Inl e, c1) \<Rightarrow> Some (Inl e, c1)
      | (Inr None, c1) \<Rightarrow> Some (Inr [], c1)
      | (Inr (Some item), c1) \<Rightarrow>
          (case item_kids item of
             None \<Rightarrow> Some (Inr [], c1)
           | Some kids \<Rightarrow> loadCommentsRecursively fuel up now c1 kids 0 []))"

text \<open>\<^verbatim>\<open>getMultipleItems\<close>: the \<^verbatim>\<open>for\<close> loop over \<^verbatim>\<open>i\<close> in steps of \<^verbatim>\<open>batchSize = 10\<close>.\<close>

function getMultipleItems_loop ::
  "upstream \<Rightarrow> int \<Rightarrow> HackerNewsClient \<Rightarrow> int list \<Rightarrow> nat \<Rightarrow> HackerNewsItem option list \<Rightarrow>
     (error + HackerNewsItem option list) \<times> HackerNewsClient" where
  "getMultipleItems_loop up now c ids i results =
     (if i < length ids then
        (case Promise_all_getItem up now c (take 10 (drop i ids)) of
           (Inl e, c1) \<Rightarrow> (Inl e, c1)
         | (Inr batchResults, c1) \<Rightarrow>
             getMultipleItems_loop up now c1 ids (i + 10) (results @ batchResults))
      else (Inr results, c))"
  by pat_completeness auto
termination
  by (relation "measure (\<lambda>(up, now, c, ids, i, results). length ids - i)") auto

declare getMultipleItems_loop.simps [simp del]

definition getMultipleItems ::
  "upstream \<Rightarrow> int \<Rightarrow> HackerNewsClient \<Rightarrow> int list \<Rightarrow>
     (error + HackerNewsItem option list) \<times> HackerNewsClient" where
  "getMultipleItems up now c ids = getMultipleItems_loop up now c ids 0 []"

subsection \<open>Cache management\<close>

definition getCacheStats :: "int \<Rightarrow> HackerNewsClient \<Rightarrow> (nat \<times> nat \<times> nat) \<times> HackerNewsClient" where
  "getCacheStats now c =
     (case SimpleCache_size now (itemCache c) of
        (nItems, ic) \<Rightarrow>
          (case SimpleCache_size now (userCache c) of
             (nUsers, uc) \<Rightarrow>
               (case SimpleCache_size now (listCache c) of
                  (nLists, lc) \<Rightarrow>
                    ((nItems, nUsers, nLists), c\<lparr>itemCache := ic, userCache := uc, listCache := lc\<rparr>))))"

definition clearCache :: "HackerNewsClient \<Rightarrow> HackerNewsClient" where
  "clearCache c =
     c\<lparr>itemCache := SimpleCache_clear (itemCache c),
       userCache := SimpleCache_clear (userCache c),
       listCache := SimpleCache_clear (listCache c)\<rparr>"

section \<open>Notions used in the statements\<close>

text \<open>The kids of an item, none when the field is absent.\<close>

definition kids_of :: "HackerNewsItem \<Rightarrow> int list" where
  "kids_of item = (case item_kids item of None \<Rightarrow> [] | Some ks \<Rightarrow> ks)"

text \<open>
  What a stretch of the comment walk may do, from the client \<open>c\<close> and the array
  \<open>comments\<close> to \<open>c'\<close> and \<open>comments'\<close>: it appends items of type comment, and it
  requests only items whose id is in \<open>S\<close> or a kid of an appended comment.
\<close>

definition grows ::
  "HackerNewsClient \<Rightarrow> HackerNewsItem list \<Rightarrow> int set \<Rightarrow> HackerNewsItem list \<Rightarrow>
     HackerNewsClient \<Rightarrow> bool" where
  "grows c comments S comments' c' \<longleftrightarrow>
     baseUrl c' = baseUrl c \<and>
     (\<exists>new. comments' = comments @ new \<and>
        (\<forall>x \<in> set new. item_type x = Some Comment) \<and>
        set (requests c') \<subseteq> set (requests c) \<union>
           item_request (baseUrl c) ` (S \<union> (\<Union>x \<in> set new. set (kids_of x))))"

text \<open>
  What the upstream holds for an item id: the decoded body of its answer, and whether the
  request for it succeeds (a 2xx answer with a body that decodes).
\<close>

definition upstream_item :: "upstream \<Rightarrow> int \<Rightarrow> HackerNewsItem option" where
  "upstream_item up i =
     (case item_response up i of
        Response status statusText (Json v) \<Rightarrow> v
      | _ \<Rightarrow> None)"

definition served :: "upstream \<Rightarrow> int \<Rightarrow> bool" where
  "served up i =
     (case item_response up i of
        Response status statusText (Json v) \<Rightarrow> response_ok status
      | _ \<Rightarrow> False)"

text \<open>
  The item cache agrees with the upstream: an entry under \<open>item:i\<close> that has not expired
  holds the item the upstream has for \<open>i\<close>.
\<close>

definition coherent :: "upstream \<Rightarrow> int \<Rightarrow> HackerNewsClient \<Rightarrow> bool" where
  "coherent up now c \<longleftrightarrow>
     (\<forall>(k, e) \<in> set (cache (itemCache c)).
        \<forall>i. k = item_key i \<longrightarrow> \<not> now > expiresAt e \<longrightarrow> upstream_item up i = Some (entry_value e))"

text \<open>
  The flattened list of descendant comments below a list of ids, as the walk produces it:
  the ids in order; a comment, then the comments below its kids, then what the later ids
  give; an id that is absent upstream or whose item is not a comment gives nothing, and
  nothing below it. Every id met is served. There is such a list only when the tree below
  the ids is finite.
\<close>

inductive comment_tree :: "upstream \<Rightarrow> int list \<Rightarrow> HackerNewsItem list \<Rightarrow> bool"
  for up :: upstream where
  no_ids: "comment_tree up [] []"
| comment:
    "served up i \<Longrightarrow> upstream_item up i = Some item \<Longrightarrow> item_type item = Some Comment \<Longrightarrow>
     comment_tree up (kids_of item) below \<Longrightarrow> comment_tree up ids later \<Longrightarrow>
     comment_tree up (i # ids) (item # below @ later)"
| no_comment:
    "served up i \<Longrightarrow>
     (\<forall>item. upstream_item up i = Some item \<longrightarrow> item_type item \<noteq> Some Comment) \<Longrightarrow>
     comment_tree up ids later \<Longrightarrow>
     comment_tree up (i # ids) later"

text \<open>The same list computed down to a depth \<open>d\<close>, \<open>None\<close> when the tree is deeper.\<close>

fun descendant_comments :: "nat \<Rightarrow> upstream \<Rightarrow> int list \<Rightarrow> HackerNewsItem list option" where
  "descendant_comments d up [] = Some []"
| "descendant_comments d up (i # ids) =
     (if \<not> served up i then None
      else
        case upstream_item up i of
          None \<Rightarrow> descendant_comments d up ids
        | Some item \<Rightarrow>
            if item_type item \<noteq> Some Comment then descendant_comments d up ids
            else
              (case d of
                 0 \<Rightarrow> None
               | Suc d' \<Rightarrow>
                   (case descendant_comments d' up (kids_of item) of
                      None \<Rightarrow> None
                    | Some below \<Rightarrow>
                        (case descendant_comments d up ids of
                           None \<Rightarrow> None
                         | Some later \<Rightarrow> Some (item # below @ later)))))"


text \<open>The kids of the item the upstream has for the root, none when it has no item.\<close>

definition root_kids :: "upstream \<Rightarrow> int \<Rightarrow> int list" where
  "root_kids up itemId = (case upstream_item up itemId of None \<Rightarrow> [] | Some item \<Rightarrow> kids_of item)"

text \<open>
  What the first stretch of \<open>getItem\<close> leaves for the second, when cache and upstream agree
  and the request succeeds: the cached item is the upstream's, or the fetch has the
  upstream's body.
\<close>

definition started_ok ::
  "upstream \<Rightarrow> int \<Rightarrow> (HackerNewsItem, HackerNewsItem option) started \<Rightarrow> bool" where
  "started_ok up i p =
     (case p of
        Hit v \<Rightarrow> upstream_item up i = Some v
      | Miss r \<Rightarrow> r = Inr (Json (upstream_item up i)))"

text \<open>
  A sequence of story-list fetches, each with the time of the call and the endpoint,
  run one after the other on the client.
\<close>

fun fetch_lists :: "upstream \<Rightarrow> HackerNewsClient \<Rightarrow> (int \<times> string) list \<Rightarrow> HackerNewsClient" where
  "fetch_lists up c [] = c"
| "fetch_lists up c ((now, endpoint) # calls) =
     fetch_lists up (snd (getStoryList up now c endpoint)) calls"

section \<open>Fixtures\<close>

text \<open>
  The data of the test suites (src/api/client.test.ts, src/utils/cache.test.ts) that the
  closed theorems below are evaluated on: an item with no optional field, an upstream
  that rejects every request, and the client the tests construct.
\<close>

definition blank_item :: "int \<Rightarrow> HackerNewsItem" where
  "blank_item i =
     \<lparr>item_id = i, item_deleted = None, item_type = None, item_by = None, item_time = None,
      item_text = None, item_dead = None, item_parent = None, item_poll = None,
      item_kids = None, item_url = None, item_score = None, item_title = None,
      item_parts = None, item_descendants = None\<rparr>"

definition offline :: upstream where
  "offline =
     \<lparr>item_response = (\<lambda>i. Rejected ''Network error''),
      user_response = (\<lambda>u. Rejected ''Network error''),
      list_response = (\<lambda>e. Rejected ''Network error''),
      maxitem_response = Rejected ''Network error'',
      updates_response = Rejected ''Network error'',
      url_hostname = (\<lambda>u. None)\<rparr>"

definition test_client :: HackerNewsClient where
  "test_client =
     new_HackerNewsClient
       \<lparr>opt_baseUrl = ''https://hacker-news.firebaseio.com/v0'', opt_timeout = 5000,
        cacheOptions = Some (60, 100)\<rparr>"

text \<open>"should handle partial failures": item 123 is served, the fetch of 456 rejects.\<close>

definition story_123 :: HackerNewsItem where
  "story_123 = (blank_item 123)\<lparr>item_type := Some Story, item_title := Some ''Story 1''\<rparr>"

definition partial_failure_upstream :: upstream where
  "partial_failure_upstream =
     offline\<lparr>item_response :=
       (\<lambda>i. if i = 123 then Response 200 ''OK'' (Json (Some story_123))
            else Rejected ''Network error'')\<rparr>"

text \<open>A user whose second submission cannot be fetched.\<close>

definition test_user :: HackerNewsUser where
  "test_user =
     \<lparr>user_id = ''testuser'', user_delay = None, user_created = 1640995200, user_karma = 1000,
      user_about = Some ''Test user'', user_submitted = Some [123, 456]\<rparr>"

definition partial_failure_user_upstream :: upstream where
  "partial_failure_user_upstream =
     partial_failure_upstream\<lparr>user_response := (\<lambda>u. Response 200 ''OK'' (Json (Some test_user)))\<rparr>"

text \<open>"should handle HTTP errors": every request is answered 500.\<close>

definition server_error_upstream :: upstream where
  "server_error_upstream =
     \<lparr>item_response = (\<lambda>i. Response 500 ''Internal Server Error'' (Json None)),
      user_response = (\<lambda>u. Response 500 ''Internal Server Error'' (Json None)),
      list_response = (\<lambda>e. Response 500 ''Internal Server Error'' (Json [])),
      maxitem_response = Response 500 ''Internal Server Error'' (Json 0),
      updates_response =
        Response 500 ''Internal Server Error'' (Json \<lparr>upd_items = [], upd_profiles = []\<rparr>),
      url_hostname = (\<lambda>u. None)\<rparr>"

text \<open>
  A story 1 whose only kid 2 is not a comment (a poll), and 2 has the comment 3 as its kid.
\<close>

definition poll_tree_upstream :: upstream where
  "poll_tree_upstream =
     offline\<lparr>item_response :=
       (\<lambda>i. if i = 1 then
              Response 200 ''OK''
                (Json (Some ((blank_item 1)\<lparr>item_type := Some Story, item_kids := Some [2]\<rparr>)))
            else if i = 2 then
              Response 200 ''OK''
                (Json (Some ((blank_item 2)\<lparr>item_type := Some Poll, item_kids := Some [3]\<rparr>)))
            else if i = 3 then
              Response 200 ''OK''
                (Json (Some ((blank_item 3)\<lparr>item_type := Some Comment, item_parent := Some 2\<rparr>)))
            else Response 200 ''OK'' (Json None))\<rparr>"

text \<open>"should fetch complete comment tree", with a reply 101 under the comment 789.\<close>

definition comment_456 :: HackerNewsItem where
  "comment_456 = (blank_item 456)\<lparr>item_type := Some Comment, item_parent := Some 123\<rparr>"

definition comment_789 :: HackerNewsItem where
  "comment_789 =
     (blank_item 789)\<lparr>item_type := Some Comment, item_parent := Some 123,
                      item_kids := Some [101]\<rparr>"

definition comment_101 :: HackerNewsItem where
  "comment_101 = (blank_item 101)\<lparr>item_type := Some Comment, item_parent := Some 789\<rparr>"

definition comment_tree_upstream :: upstream where
  "comment_tree_upstream =
     offline\<lparr>item_response :=
       (\<lambda>i. if i = 123 then
              Response 200 ''OK''
                (Json (Some ((blank_item 123)\<lparr>item_type := Some Story, item_kids := Some [456, 789]\<rparr>)))
            else if i = 456 then Response 200 ''OK'' (Json (Some comment_456))
            else if i = 789 then Response 200 ''OK'' (Json (Some comment_789))
            else if i = 101 then Response 200 ''OK'' (Json (Some comment_101))
            else Response 200 ''OK'' (Json None))\<rparr>"



text \<open>The stories of the "searchStories" tests.\<close>

definition ai_story :: HackerNewsItem where
  "ai_story =
     (blank_item 123)\<lparr>item_type := Some Story, item_title := Some ''AI Story'',
                      item_by := Some ''user1'', item_score := Some 100,
                      item_time := Some 1640995200\<rparr>"

definition ml_story :: HackerNewsItem where
  "ml_story =
     (blank_item 456)\<lparr>item_type := Some Story, item_title := Some ''ML Research'',
                      item_by := Some ''user2'', item_score := Some 150,
                      item_time := Some 1640995300\<rparr>"

definition search_upstream :: upstream where
  "search_upstream =
     offline\<lparr>list_response := (\<lambda>e. Response 200 ''OK'' (Json [123, 456, 789])),
             item_response :=
               (\<lambda>i. if i = 123 then Response 200 ''OK'' (Json (Some ai_story))
                    else if i = 456 then Response 200 ''OK'' (Json (Some ml_story))
                    else Response 200 ''OK'' (Json None))\<rparr>"


text \<open>"should return null for non-story items": item 123 is a comment; no user exists.\<close>

definition test_comment :: HackerNewsItem where
  "test_comment =
     (blank_item 123)\<lparr>item_type := Some Comment, item_text := Some ''Test comment''\<rparr>"

definition comment_upstream :: upstream where
  "comment_upstream =
     offline\<lparr>item_response := (\<lambda>i. Response 200 ''OK'' (Json (Some test_comment))),
             user_response := (\<lambda>u. Response 200 ''OK'' (Json None))\<rparr>"

text \<open>
  A client whose caches hold nothing, one built with a negative maximum size, and one
  whose list cache holds nothing.
\<close>

definition zero_size_client :: HackerNewsClient where
  "zero_size_client =
     new_HackerNewsClient
       \<lparr>opt_baseUrl = ''https://hacker-news.firebaseio.com/v0'', opt_timeout = 5000,
        cacheOptions = Some (60, 0)\<rparr>"

definition negative_size_client :: HackerNewsClient where
  "negative_size_client =
     new_HackerNewsClient
       \<lparr>opt_baseUrl = ''https://hacker-news.firebaseio.com/v0'', opt_timeout = 5000,
        cacheOptions = Some (60, - 100)\<rparr>"

definition small_client :: HackerNewsClient where
  "small_client =
     new_HackerNewsClient
       \<lparr>opt_baseUrl = ''https://hacker-news.firebaseio.com/v0'', opt_timeout = 5000,
        cacheOptions = Some (60, 5)\<rparr>"

section \<open>Properties of the cache\<close>

lemma set_stores:
  assumes "maxSize c \<noteq> 0" and "ttlMs c \<noteq> 0"
  shows "map_of (cache (SimpleCache_set now key v c)) key
           = Some \<lparr>entry_value = v, expiresAt = now + ttlMs c\<rparr>"
  using assms by (simp add: SimpleCache_set_def Let_def update_conv')

lemma set_keeps_config:
  "ttlMs (SimpleCache_set now key v c) = ttlMs c \<and>
   maxSize (SimpleCache_set now key v c) = maxSize c"
  by (simp add: SimpleCache_set_def Let_def cleanup_def evict_oldest_def
           split: list.splits prod.splits)

lemma get_after_set:
  assumes "maxSize c \<noteq> 0" and "ttlMs c \<noteq> 0"
  shows "fst (SimpleCache_get t key (SimpleCache_set now key v c))
           = (if t > now + ttlMs c then None else Some v)"
  using set_stores [OF assms, of now key v]
  by (simp add: SimpleCache_get_def)

lemma cleanup_none_expired:
  assumes "\<forall>(k, e) \<in> set (cache c). \<not> now > expiresAt e"
  shows "cleanup now c = c"
proof -
  have "filter (\<lambda>(k, e). \<not> now > expiresAt e) (cache c) = cache c"
    using assms by (intro filter_True) auto
  then show ?thesis by (simp add: cleanup_def)
qed

lemma length_update_present:
  "k \<in> fst ` set al \<Longrightarrow> length (AList.update k v al) = length al"
  by (induction al) auto

text \<open>
  Claim C4, as the code has it. A value stored by \<open>set(k, v)\<close> at time 0 in a cache with
  \<open>ttlSeconds > 0\<close> and \<open>maxSize > 0\<close> is returned by \<open>get(k)\<close> at every time from 0 up to
  and including \<open>ttlSeconds\<close> (the test of \<open>get\<close> is \<open>now > expiresAt\<close>, strict), and is
  absent at every later time. Times are in milliseconds.
\<close>

theorem cache_ttl:
  assumes "ttlSeconds > 0" and "maxSize c > 0" and "ttlMs c = ttlSeconds * 1000"
  shows "(0 \<le> t \<and> t \<le> ttlSeconds * 1000 \<longrightarrow>
            fst (SimpleCache_get t k (SimpleCache_set 0 k v c)) = Some v) \<and>
         (t > ttlSeconds * 1000 \<longrightarrow>
            fst (SimpleCache_get t k (SimpleCache_set 0 k v c)) = None)"
proof -
  have "maxSize c \<noteq> 0" and "ttlMs c \<noteq> 0" using assms by auto
  from get_after_set [OF this, of t k 0 v] assms(3) show ?thesis by simp
qed

theorem cache_ttl_witness:
  "fst (SimpleCache_get 999 ''k1'' (SimpleCache_set 0 ''k1'' ''v1'' (new_SimpleCache 1 3)))
     = Some ''v1'' \<and>
   fst (SimpleCache_get 1001 ''k1'' (SimpleCache_set 0 ''k1'' ''v1'' (new_SimpleCache 1 3)))
     = None"
  using cache_ttl [of 1 "new_SimpleCache 1 3" 999 "''k1''" "''v1''"]
        cache_ttl [of 1 "new_SimpleCache 1 3" 1001 "''k1''" "''v1''"]
  by (simp add: new_SimpleCache_def)

text \<open>
  Claim C4 as stated fails at exactly \<open>t = ttlSeconds\<close>: with a TTL of one second, the
  value set at time 0 is still returned at 1000 ms.
\<close>

theorem cache_ttl_boundary_counterexample:
  "fst (SimpleCache_get (1 * 1000) ''k1'' (SimpleCache_set 0 ''k1'' ''v1'' (new_SimpleCache 1 3)))
     = Some ''v1''"
  by (simp add: SimpleCache_get_def SimpleCache_set_def new_SimpleCache_def)

text \<open>
  While no key of the cache is the empty string, a \<open>set\<close> keeps the number of entries
  within \<open>maxSize\<close>.
\<close>

lemma length_update_le: "length (AList.update k v al) \<le> Suc (length al)"
  by (induction al) auto

lemma cleanup_shrinks: "length (cache (cleanup now c)) \<le> length (cache c)"
  by (simp add: cleanup_def)

lemma cleanup_keys: "fst ` set (cache (cleanup now c)) \<subseteq> fst ` set (cache c)"
  by (auto simp: cleanup_def)

lemma cleanup_maxSize: "maxSize (cleanup now c) = maxSize c"
  by (simp add: cleanup_def)

lemma evict_oldest_shrinks:
  assumes "[] \<notin> fst ` set (cache c)" and "cache c \<noteq> []"
  shows "Suc (length (cache (evict_oldest c))) \<le> length (cache c)"
proof -
  from assms(2) obtain k e rest where c: "cache c = (k, e) # rest" by (cases "cache c") auto
  with assms(1) have "k \<noteq> []" by auto
  with c have "cache (evict_oldest c) = AList.delete k rest" by (simp add: evict_oldest_def)
  with c show ?thesis using length_delete_le [of k rest] by simp
qed

lemma set_size_bounded:
  assumes "[] \<notin> fst ` set (cache c)" and "int (length (cache c)) \<le> maxSize c"
  shows "int (length (cache (SimpleCache_set now key v c))) \<le> maxSize c"
proof (cases "maxSize c = 0 \<or> ttlMs c = 0")
  case True
  with assms(2) show ?thesis by (simp add: SimpleCache_set_def)
next
  case False
  define c1 where "c1 = (if int (length (cache c)) \<ge> maxSize c then cleanup now c else c)"
  define c2 where "c2 = (if int (length (cache c1)) \<ge> maxSize c1 then evict_oldest c1 else c1)"
  have m1: "maxSize c1 = maxSize c" by (simp add: c1_def cleanup_maxSize)
  have k1: "[] \<notin> fst ` set (cache c1)" using assms(1) cleanup_keys [of now c] by (auto simp: c1_def)
  have l1: "int (length (cache c1)) \<le> maxSize c"
    using assms(2) cleanup_shrinks [of now c] by (simp add: c1_def)
  have l2: "int (Suc (length (cache c2))) \<le> maxSize c"
  proof (cases "int (length (cache c1)) \<ge> maxSize c1")
    case True
    with False m1 l1 have "cache c1 \<noteq> []" by auto
    from evict_oldest_shrinks [OF k1 this] l1 True show ?thesis by (simp add: c2_def)
  next
    case False
    with m1 show ?thesis by (simp add: c2_def)
  qed
  have "cache (SimpleCache_set now key v c)
          = AList.update key \<lparr>entry_value = v, expiresAt = now + ttlMs c\<rparr> (cache c2)"
    using False by (simp add: SimpleCache_set_def Let_def c1_def c2_def)
  with l2 length_update_le [of key "\<lparr>entry_value = v, expiresAt = now + ttlMs c\<rparr>" "cache c2"]
  show ?thesis by simp
qed

text \<open>
  Claim C5 (the number of entries never exceeds \<open>maxSize\<close> after a \<open>set\<close>) at the input
  where the code breaks it. In a cache of \<open>maxSize = 1\<close> that holds the key \<^verbatim>\<open>""\<close>, a
  \<open>set\<close> of another key finds the cache full, finds nothing expired, and skips the
  eviction because \<^verbatim>\<open>if (firstKey)\<close> is false for the empty string: two entries remain,
  and \<open>size()\<close> reports 2.
\<close>

theorem set_exceeds_maxSize_with_empty_key:
  "length (cache (SimpleCache_set 0 ''b'' ''x''
                    (SimpleCache_set 0 '''' ''a'' (new_SimpleCache 300 1)))) = 2 \<and>
   maxSize (SimpleCache_set 0 ''b'' ''x''
              (SimpleCache_set 0 '''' ''a'' (new_SimpleCache 300 1))) = 1 \<and>
   fst (SimpleCache_size 0 (SimpleCache_set 0 ''b'' ''x''
                              (SimpleCache_set 0 '''' ''a'' (new_SimpleCache 300 1)))) = 2"
  by (simp add: SimpleCache_set_def new_SimpleCache_def cleanup_def evict_oldest_def
                SimpleCache_size_def Let_def)

text \<open>
  An overwrite at capacity, while the earliest-inserted key \<open>k0\<close> is not the empty string.
  The cache holds exactly \<open>maxSize\<close> entries, none of them expired, and \<open>key\<close> is one of
  them. Then \<open>set(key, v)\<close> deletes \<open>k0\<close> before it stores: what remains is the rest of the
  entries with \<open>key\<close> written, so when \<open>key\<close> is not \<open>k0\<close> the unexpired entry of \<open>k0\<close> is
  gone and the cache holds \<open>maxSize - 1\<close> entries.
\<close>

lemma overwrite_at_capacity_evicts_oldest:
  assumes full: "int (length (cache c)) = maxSize c"
    and fresh: "\<forall>(k, e) \<in> set (cache c). \<not> now > expiresAt e"
    and dist: "distinct (map fst (cache c))"
    and present: "key \<in> fst ` set (cache c)"
    and ttl: "ttlMs c \<noteq> 0"
    and oldest: "cache c = (k0, e0) # rest"
    and nonempty: "k0 \<noteq> []"
  shows "cache (SimpleCache_set now key v c)
           = AList.update key \<lparr>entry_value = v, expiresAt = now + ttlMs c\<rparr> rest \<and>
         (key \<noteq> k0 \<longrightarrow>
            k0 \<notin> fst ` set (cache (SimpleCache_set now key v c)) \<and>
            int (length (cache (SimpleCache_set now key v c))) = maxSize c - 1 \<and>
            int (length (cache (SimpleCache_set now key v c))) < maxSize c)"
proof -
  have mx: "maxSize c \<noteq> 0" using full oldest by auto
  have k0: "k0 \<notin> fst ` set rest" using dist oldest by (auto simp: image_iff)
  have ev: "cache (evict_oldest c) = rest"
    using oldest nonempty k0 by (simp add: evict_oldest_def)
  have mxe: "maxSize (evict_oldest c) = maxSize c"
    by (simp add: evict_oldest_def split: list.splits prod.splits)
  have eq: "cache (SimpleCache_set now key v c)
           = AList.update key \<lparr>entry_value = v, expiresAt = now + ttlMs c\<rparr> rest"
    using mx ttl full ev mxe cleanup_none_expired [OF fresh]
    by (simp add: SimpleCache_set_def Let_def)
  have "key \<noteq> k0 \<Longrightarrow> key \<in> fst ` set rest" using present oldest by auto
  then have len: "key \<noteq> k0 \<Longrightarrow>
      length (AList.update key \<lparr>entry_value = v, expiresAt = now + ttlMs c\<rparr> rest) = length rest"
    by (simp add: length_update_present)
  show ?thesis using eq k0 len full oldest by (auto simp: dom_update)
qed

lemma overwrite_at_capacity_evicts_oldest_example:
  "cache (SimpleCache_set 0 ''key2'' ''updated''
            \<lparr>cache = [(''key1'', \<lparr>entry_value = ''value1'', expiresAt = 1000\<rparr>),
                       (''key2'', \<lparr>entry_value = ''value2'', expiresAt = 1000\<rparr>),
                       (''key3'', \<lparr>entry_value = ''value3'', expiresAt = 1000\<rparr>)],
             ttlMs = 1000, maxSize = 3\<rparr>)
     = [(''key2'', \<lparr>entry_value = ''updated'', expiresAt = 1000\<rparr>),
        (''key3'', \<lparr>entry_value = ''value3'', expiresAt = 1000\<rparr>)]"
  using overwrite_at_capacity_evicts_oldest
    [of "\<lparr>cache = [(''key1'', \<lparr>entry_value = ''value1'', expiresAt = 1000\<rparr>),
                       (''key2'', \<lparr>entry_value = ''value2'', expiresAt = 1000\<rparr>),
                       (''key3'', \<lparr>entry_value = ''value3'', expiresAt = 1000\<rparr>)],
             ttlMs = 1000, maxSize = 3\<rparr>" 0 "''key2''" "''key1''"
        "\<lparr>entry_value = ''value1'', expiresAt = 1000\<rparr>"
        "[(''key2'', \<lparr>entry_value = ''value2'', expiresAt = 1000\<rparr>),
          (''key3'', \<lparr>entry_value = ''value3'', expiresAt = 1000\<rparr>)]" "''updated''"]
  by simp

text \<open>
  Claim C10 (an overwrite at capacity still evicts the earliest-inserted key before it
  stores) at the input where the code breaks it, by the same test \<^verbatim>\<open>if (firstKey)\<close> as in
  claim C5. After \<^verbatim>\<open>set("", "a")\<close> and \<^verbatim>\<open>set("b", "x")\<close> a cache of \<open>maxSize = 2\<close> is full and
  nothing has expired; \<^verbatim>\<open>set("b", "y")\<close> overwrites \<^verbatim>\<open>"b"\<close>, and the earliest-inserted entry
  \<^verbatim>\<open>""\<close> is not evicted: the cache still holds \<open>maxSize\<close> entries.
\<close>

theorem overwrite_at_capacity_keeps_empty_first_key:
  "cache (SimpleCache_set 0 ''b'' ''x'' (SimpleCache_set 0 '''' ''a'' (new_SimpleCache 300 2)))
     = [('''', \<lparr>entry_value = ''a'', expiresAt = 300000\<rparr>),
        (''b'', \<lparr>entry_value = ''x'', expiresAt = 300000\<rparr>)] \<and>
   cache (SimpleCache_set 0 ''b'' ''y''
            (SimpleCache_set 0 ''b'' ''x'' (SimpleCache_set 0 '''' ''a'' (new_SimpleCache 300 2))))
     = [('''', \<lparr>entry_value = ''a'', expiresAt = 300000\<rparr>),
        (''b'', \<lparr>entry_value = ''y'', expiresAt = 300000\<rparr>)]"
  by (simp add: SimpleCache_set_def new_SimpleCache_def cleanup_def evict_oldest_def Let_def)

section \<open>Properties of the client\<close>

text \<open>
  Claim C1 (an individual fetch failure inside \<open>getMultipleItems\<close> or inside the
  recent-submission fetch of \<open>getUserWithStats\<close> yields \<open>null\<close> or an omission, never a
  throw) at the input of the test "should handle partial failures": the fetch of item
  456 rejects. \<^verbatim>\<open>Promise.all\<close> rejects with the error \<open>getItem\<close> throws, nothing catches
  it, and both operations throw it.
\<close>

theorem partial_failure_throws:
  "fst (getMultipleItems partial_failure_upstream 0 test_client [123, 456])
     = Inl (HackerNewsClientError ''Failed to fetch item 456: Network error'' None) \<and>
   fst (getUserWithStats partial_failure_user_upstream 0 test_client ''testuser'')
     = Inl (HackerNewsClientError ''Failed to fetch item 456: Network error'' None)"
  by code_simp

text \<open>Whatever \<open>getItem\<close> throws is a \<open>HackerNewsClientError\<close> with no status code.\<close>

lemma getItem_error_without_statusCode:
  assumes "fst (getItem up now c i) = Inl e"
  shows "is_HackerNewsClientError e \<and> statusCode e = None"
proof -
  obtain p c1 where s: "getItem_start up now c i = (p, c1)" by (cases "getItem_start up now c i")
  show ?thesis
  proof (cases p)
    case (Hit v)
    with assms s show ?thesis by (simp add: getItem_def)
  next
    case (Miss r)
    with assms s have "fst (getItem_finish now c1 i r) = Inl e" by (simp add: getItem_def)
    then show ?thesis
      by (auto simp: getItem_finish_def failed_to_fetch_def split: sum.splits option.splits)
  qed
qed

text \<open>
  Claim C2 (a non-2xx response makes the operation raise a client error whose
  \<open>statusCode\<close> is the HTTP status) at a 500 response. \<open>fetchWithTimeout\<close> throws an error
  that carries 500; the \<^verbatim>\<open>catch\<close> of each operation replaces it by a new
  \<open>HackerNewsClientError\<close> built from the message alone, whose \<open>statusCode\<close> is undefined.
\<close>

theorem http_error_statusCode_lost:
  "fst (fetchWithTimeout test_client (item_request (baseUrl test_client) 123)
          (item_response server_error_upstream 123))
     = Inl (HackerNewsClientError ''HTTP 500: Internal Server Error'' (Some 500)) \<and>
   fst (getItem server_error_upstream 0 test_client 123)
     = Inl (HackerNewsClientError
              ''Failed to fetch item 123: HTTP 500: Internal Server Error'' None) \<and>
   fst (getUser server_error_upstream 0 test_client ''testuser'')
     = Inl (HackerNewsClientError
              ''Failed to fetch user testuser: HTTP 500: Internal Server Error'' None) \<and>
   fst (getMaxItemId server_error_upstream test_client)
     = Inl (HackerNewsClientError
              ''Failed to fetch max item ID: HTTP 500: Internal Server Error'' None) \<and>
   fst (getTopStories server_error_upstream 0 test_client)
     = Inl (HackerNewsClientError
              ''Failed to fetch topstories: HTTP 500: Internal Server Error'' None) \<and>
   fst (getNewStories server_error_upstream 0 test_client)
     = Inl (HackerNewsClientError
              ''Failed to fetch newstories: HTTP 500: Internal Server Error'' None) \<and>
   fst (getBestStories server_error_upstream 0 test_client)
     = Inl (HackerNewsClientError
              ''Failed to fetch beststories: HTTP 500: Internal Server Error'' None) \<and>
   fst (getAskStories server_error_upstream 0 test_client)
     = Inl (HackerNewsClientError
              ''Failed to fetch askstories: HTTP 500: Internal Server Error'' None) \<and>
   fst (getShowStories server_error_upstream 0 test_client)
     = Inl (HackerNewsClientError
              ''Failed to fetch showstories: HTTP 500: Internal Server Error'' None) \<and>
   fst (getJobStories server_error_upstream 0 test_client)
     = Inl (HackerNewsClientError
              ''Failed to fetch jobstories: HTTP 500: Internal Server Error'' None) \<and>
   fst (getUpdates server_error_upstream test_client)
     = Inl (HackerNewsClientError
              ''Failed to fetch updates: HTTP 500: Internal Server Error'' None)"
  by code_simp

subsection \<open>What the operations leave unchanged, and what they request\<close>

lemma fetchWithTimeout_state:
  "snd (fetchWithTimeout c url out) = c\<lparr>requests := requests c @ [url]\<rparr>"
  by (simp add: fetchWithTimeout_def)

lemma SimpleCache_get_config:
  "SimpleCache_get now key c = (r, c') \<Longrightarrow> ttlMs c' = ttlMs c \<and> maxSize c' = maxSize c"
  by (auto simp: SimpleCache_get_def split: option.splits if_splits)

lemma getItem_start_frame:
  assumes "getItem_start up now c i = (p, c')"
  shows "baseUrl c' = baseUrl c \<and> timeout c' = timeout c \<and> userCache c' = userCache c \<and>
         listCache c' = listCache c \<and>
         requests c' = requests c @ (case p of Hit v \<Rightarrow> [] | Miss r \<Rightarrow> [item_request (baseUrl c) i])"
  using assms
  by (auto simp: getItem_start_def fetchWithTimeout_def split: prod.splits option.splits)

lemma getItem_finish_frame:
  assumes "getItem_finish now c i r = (x, c')"
  shows "baseUrl c' = baseUrl c \<and> timeout c' = timeout c \<and> userCache c' = userCache c \<and>
         listCache c' = listCache c \<and> requests c' = requests c"
  using assms
  by (auto simp: getItem_finish_def split: sum.splits option.splits)

lemma start_all_frame:
  "start_all up now c ids = (ps, c') \<Longrightarrow>
     baseUrl c' = baseUrl c \<and> timeout c' = timeout c \<and> userCache c' = userCache c \<and>
     listCache c' = listCache c \<and> length ps = length ids \<and>
     set (requests c') \<subseteq> set (requests c) \<union> item_request (baseUrl c) ` set ids"
proof (induction ids arbitrary: c ps c')
  case Nil
  then show ?case by simp
next
  case (Cons i ids)
  obtain p c1 where s: "getItem_start up now c i = (p, c1)" by (cases "getItem_start up now c i")
  obtain ps' c2 where r: "start_all up now c1 ids = (ps', c2)" by (cases "start_all up now c1 ids")
  from Cons.prems s r have eq: "ps = p # ps'" "c' = c2" by auto
  note f = getItem_start_frame [OF s] and ih = Cons.IH [OF r]
  have "set (requests c1) \<subseteq> set (requests c) \<union> {item_request (baseUrl c) i}"
    using f by (cases p) auto
  with f ih eq show ?case by auto
qed

lemma finish_all_frame:
  "finish_all now c xs = (rs, c') \<Longrightarrow>
     baseUrl c' = baseUrl c \<and> timeout c' = timeout c \<and> userCache c' = userCache c \<and>
     listCache c' = listCache c \<and> requests c' = requests c \<and> length rs = length xs"
proof (induction now c xs arbitrary: rs c' rule: finish_all.induct)
  case (1 now c)
  then show ?case by simp
next
  case (2 now c i cached rest)
  then show ?case by (auto split: prod.splits)
next
  case (3 now c i r rest)
  obtain x c1 where s: "getItem_finish now c i r = (x, c1)" by (cases "getItem_finish now c i r")
  obtain rs' c2 where t: "finish_all now c1 rest = (rs', c2)" by (cases "finish_all now c1 rest")
  from "3.prems" s t have eq: "rs = x # rs'" "c' = c2" by auto
  from "3.IH" [OF s [symmetric] t] getItem_finish_frame [OF s] eq show ?case by auto
qed

lemma Promise_all_getItem_frame:
  assumes "Promise_all_getItem up now c ids = (r, c')"
  shows "baseUrl c' = baseUrl c \<and> timeout c' = timeout c \<and> userCache c' = userCache c \<and>
         listCache c' = listCache c \<and>
         set (requests c') \<subseteq> set (requests c) \<union> item_request (baseUrl c) ` set ids"
proof -
  obtain ps c1 where s: "start_all up now c ids = (ps, c1)" by (cases "start_all up now c ids")
  obtain rs c2 where t: "finish_all now c1 (zip ids ps) = (rs, c2)"
    by (cases "finish_all now c1 (zip ids ps)")
  from assms s t have "c' = c2" by (simp add: Promise_all_getItem_def)
  with start_all_frame [OF s] finish_all_frame [OF t] show ?thesis by auto
qed

lemma grows_refl: "grows c comments S comments c"
  by (auto simp: grows_def)

lemma image_bound_mono:
  "A \<subseteq> B \<union> f ` X \<Longrightarrow> X \<subseteq> Y \<Longrightarrow> A \<subseteq> B \<union> f ` Y"
  by blast

lemma image_bound_trans:
  "A \<subseteq> B \<union> f ` X \<Longrightarrow> B \<subseteq> C \<union> f ` Y \<Longrightarrow> A \<subseteq> C \<union> f ` (Y \<union> X)"
  by blast

lemma grows_mono:
  assumes "grows c a S b c'" and "S \<subseteq> T"
  shows "grows c a T b c'"
proof -
  from assms(1) obtain n where n: "baseUrl c' = baseUrl c" "b = a @ n"
    "\<forall>x \<in> set n. item_type x = Some Comment"
    "set (requests c') \<subseteq> set (requests c) \<union>
       item_request (baseUrl c) ` (S \<union> (\<Union>x \<in> set n. set (kids_of x)))"
    unfolding grows_def by blast
  have "set (requests c') \<subseteq> set (requests c) \<union>
       item_request (baseUrl c) ` (T \<union> (\<Union>x \<in> set n. set (kids_of x)))"
    by (rule image_bound_mono [OF n(4)]) (use assms(2) in blast)
  with n(1,2,3) show ?thesis unfolding grows_def by blast
qed

lemma grows_trans:
  assumes "grows c a S b c1" and "grows c1 b T d c2"
  shows "grows c a (S \<union> T) d c2"
proof -
  from assms(1) obtain n1 where 1: "baseUrl c1 = baseUrl c" "b = a @ n1"
    "\<forall>x \<in> set n1. item_type x = Some Comment"
    "set (requests c1) \<subseteq> set (requests c) \<union>
       item_request (baseUrl c) ` (S \<union> (\<Union>x \<in> set n1. set (kids_of x)))"
    unfolding grows_def by blast
  from assms(2) obtain n2 where 2: "baseUrl c2 = baseUrl c1" "d = b @ n2"
    "\<forall>x \<in> set n2. item_type x = Some Comment"
    "set (requests c2) \<subseteq> set (requests c1) \<union>
       item_request (baseUrl c1) ` (T \<union> (\<Union>x \<in> set n2. set (kids_of x)))"
    unfolding grows_def by blast
  have "set (requests c2) \<subseteq> set (requests c) \<union>
       item_request (baseUrl c) ` ((S \<union> T) \<union> (\<Union>x \<in> set (n1 @ n2). set (kids_of x)))"
    by (rule image_bound_mono [OF image_bound_trans [OF 2(4) [unfolded 1(1)] 1(4)]]) auto
  moreover have "d = a @ (n1 @ n2)" using 1(2) 2(2) by simp
  moreover have "\<forall>x \<in> set (n1 @ n2). item_type x = Some Comment" using 1(3) 2(3) by auto
  ultimately show ?thesis unfolding grows_def using 1(1) 2(1) by metis
qed

lemma grows_fetch:
  assumes "Promise_all_getItem up now c ids = (r, c')"
  shows "grows c comments (set ids) comments c'"
  using Promise_all_getItem_frame [OF assms] by (auto simp: grows_def)

lemma grows_push:
  assumes "item_type x = Some Comment" and "grows c (comments @ [x]) S d c'"
  shows "grows c comments (S - set (kids_of x)) d c'"
proof -
  from assms(2) obtain n where n: "baseUrl c' = baseUrl c" "d = (comments @ [x]) @ n"
    "\<forall>y \<in> set n. item_type y = Some Comment"
    "set (requests c') \<subseteq> set (requests c) \<union>
       item_request (baseUrl c) ` (S \<union> (\<Union>y \<in> set n. set (kids_of y)))"
    unfolding grows_def by blast
  have "d = comments @ (x # n)" using n(2) by simp
  moreover have "\<forall>y \<in> set (x # n). item_type y = Some Comment" using n(3) assms(1) by simp
  moreover have "set (requests c') \<subseteq> set (requests c) \<union>
       item_request (baseUrl c) ` ((S - set (kids_of x)) \<union> (\<Union>y \<in> set (x # n). set (kids_of y)))"
    by (rule image_bound_mono [OF n(4)]) auto
  ultimately show ?thesis unfolding grows_def using n(1) by metis
qed

lemma load_grows:
  shows "loadCommentsRecursively fuel up now c kidIds i comments = Some (Inr comments', c') \<Longrightarrow>
           grows c comments (set (drop i kidIds)) comments' c'"
    and "forComments fuel up now c items comments = Some (Inr comments', c') \<Longrightarrow>
           grows c comments {} comments' c'"
proof (induction fuel up now c kidIds i comments and fuel up now c items comments
       arbitrary: comments' c' and comments' c'
       rule: loadCommentsRecursively_forComments.induct)
  case (1 fuel up now c kidIds i comments)
  show ?case
  proof (cases "i < length kidIds")
    case False
    with "1.prems" show ?thesis
      by (simp add: loadCommentsRecursively.simps [of fuel up now c kidIds i comments] grows_refl)
  next
    case True
    obtain r c1 where p: "Promise_all_getItem up now c (take 5 (drop i kidIds)) = (r, c1)"
      by (cases "Promise_all_getItem up now c (take 5 (drop i kidIds))")
    from "1.prems" True p obtain batchComments where r: "r = Inr batchComments"
      by (cases r) (simp_all add: loadCommentsRecursively.simps [of fuel up now c kidIds i comments])
    from "1.prems" True p r obtain comments1 c2 where
      f: "forComments fuel up now c1 batchComments comments = Some (Inr comments1, c2)" and
      l: "loadCommentsRecursively fuel up now c2 kidIds (i + 5) comments1 = Some (Inr comments', c')"
      by (simp add: loadCommentsRecursively.simps [of fuel up now c kidIds i comments]
               split: option.splits sum.splits prod.splits)
    have p': "(Inr batchComments, c1) = Promise_all_getItem up now c (take 5 (drop i kidIds))"
      using p r by simp
    have g1: "grows c comments (set (take 5 (drop i kidIds))) comments c1"
      using grows_fetch p by blast
    have g2: "grows c1 comments {} comments1 c2"
      using "1.IH"(1) [OF True p' refl f] .
    have g3: "grows c2 comments1 (set (drop (i + 5) kidIds)) comments' c'"
      using "1.IH"(2) [OF True p' refl f refl refl l] .
    have sub: "set (take 5 (drop i kidIds)) \<union> {} \<union> set (drop (i + 5) kidIds) \<subseteq> set (drop i kidIds)"
      by (metis Un_empty_right add.commute drop_drop set_append append_take_drop_id order_refl)
    from grows_mono [OF grows_trans [OF grows_trans [OF g1 g2] g3] sub] show ?thesis .
  qed
next
  case (2 fuel up now c comments)
  then show ?case by (simp add: grows_refl)
next
  case (3 fuel up now c x rest comments)
  show ?case
  proof (cases x)
    case None
    with "3.prems" have "forComments fuel up now c rest comments = Some (Inr comments', c')" by simp
    from "3.IH"(1) [OF None this] show ?thesis .
  next
    case (Some comment)
    show ?thesis
    proof (cases "item_type comment = Some Comment")
      case False
      with "3.prems" Some have "forComments fuel up now c rest comments = Some (Inr comments', c')"
        by simp
      from "3.IH"(5) [OF Some False this] show ?thesis .
    next
      case True
      show ?thesis
      proof (cases "item_kids comment")
        case None
        with "3.prems" Some True
        have "forComments fuel up now c rest (comments @ [comment]) = Some (Inr comments', c')"
          by simp
        from "3.IH"(2) [OF Some True None this]
        have "grows c (comments @ [comment]) {} comments' c'" .
        from grows_push [OF True this] show ?thesis by simp
      next
        case (Some kids)
        note k = this
        from "3.prems" \<open>x = Some comment\<close> True k obtain f where fuel: "fuel = Suc f"
          by (cases fuel) simp_all
        from "3.prems" \<open>x = Some comment\<close> True k fuel obtain comments1 c1 where
          l: "loadCommentsRecursively f up now c kids 0 (comments @ [comment]) = Some (Inr comments1, c1)" and
          r: "forComments fuel up now c1 rest comments1 = Some (Inr comments', c')"
          by (simp split: option.splits sum.splits prod.splits)
        have g1: "grows c (comments @ [comment]) (set (drop 0 kids)) comments1 c1"
          using "3.IH"(3) [OF \<open>x = Some comment\<close> True k fuel l] .
        have g2: "grows c1 comments1 {} comments' c'"
          using "3.IH"(4) [OF \<open>x = Some comment\<close> True k fuel _ refl refl r] l by simp
        have "grows c (comments @ [comment]) (set kids \<union> {}) comments' c'"
          using grows_trans [OF g1 g2] by simp
        from grows_push [OF True this] k show ?thesis by (simp add: kids_of_def)
      qed
    qed
  qed
qed


lemma getItem_frame:
  assumes "getItem up now c i = (r, c')"
  shows "baseUrl c' = baseUrl c \<and> timeout c' = timeout c \<and> userCache c' = userCache c \<and>
         listCache c' = listCache c \<and>
         set (requests c') \<subseteq> set (requests c) \<union> {item_request (baseUrl c) i}"
proof -
  obtain p c1 where s: "getItem_start up now c i = (p, c1)" by (cases "getItem_start up now c i")
  note f = getItem_start_frame [OF s]
  show ?thesis
  proof (cases p)
    case (Hit v)
    with assms s f show ?thesis by (auto simp: getItem_def)
  next
    case (Miss x)
    with assms s have "getItem_finish now c1 i x = (r, c')" by (simp add: getItem_def)
    from getItem_finish_frame [OF this] f Miss show ?thesis by auto
  qed
qed


text \<open>
  The bound on the depth only decides whether the walk is cut short: a walk that returns
  within \<open>fuel\<close> returns the same with any larger bound.
\<close>

lemma more_fuel:
  shows "loadCommentsRecursively fuel up now c kidIds i comments = Some r \<Longrightarrow>
           loadCommentsRecursively (Suc fuel) up now c kidIds i comments = Some r"
    and "forComments fuel up now c items comments = Some r \<Longrightarrow>
           forComments (Suc fuel) up now c items comments = Some r"
proof (induction fuel up now c kidIds i comments and fuel up now c items comments
       arbitrary: r and r
       rule: loadCommentsRecursively_forComments.induct)
  case (1 fuel up now c kidIds i comments)
  show ?case
  proof (cases "i < length kidIds")
    case False
    with "1.prems" show ?thesis
      by (simp add: loadCommentsRecursively.simps [of _ up now c kidIds i comments])
  next
    case True
    obtain p c1 where p: "Promise_all_getItem up now c (take 5 (drop i kidIds)) = (p, c1)"
      by (cases "Promise_all_getItem up now c (take 5 (drop i kidIds))")
    show ?thesis
    proof (cases p)
      case (Inl e)
      with "1.prems" True p show ?thesis
        by (simp add: loadCommentsRecursively.simps [of _ up now c kidIds i comments])
    next
      case (Inr batchComments)
      have p': "(Inr batchComments, c1) = Promise_all_getItem up now c (take 5 (drop i kidIds))"
        using p Inr by simp
      from "1.prems" True p Inr obtain q c2 where
        f: "forComments fuel up now c1 batchComments comments = Some (q, c2)"
        by (cases "forComments fuel up now c1 batchComments comments")
           (auto simp: loadCommentsRecursively.simps [of fuel up now c kidIds i comments])
      note f' = "1.IH"(1) [OF True p' refl f]
      show ?thesis
      proof (cases q)
        case (Inl e)
        with "1.prems" True p \<open>p = Inr batchComments\<close> f f' show ?thesis
          by (auto simp: loadCommentsRecursively.simps [of _ up now c kidIds i comments])
      next
        case (Inr comments1)
        with "1.prems" True p \<open>p = Inr batchComments\<close> f
        have l: "loadCommentsRecursively fuel up now c2 kidIds (i + 5) comments1 = Some r"
          by (simp add: loadCommentsRecursively.simps [of fuel up now c kidIds i comments])
        from "1.IH"(2) [OF True p' refl f [unfolded Inr] refl refl l]
        have "loadCommentsRecursively (Suc fuel) up now c2 kidIds (i + 5) comments1 = Some r" .
        with True p \<open>p = Inr batchComments\<close> f' Inr show ?thesis
          by (simp add: loadCommentsRecursively.simps [of "Suc fuel" up now c kidIds i comments])
      qed
    qed
  qed
next
  case (2 fuel up now c comments)
  then show ?case by simp
next
  case (3 fuel up now c x rest comments)
  show ?case
  proof (cases x)
    case None
    with "3.prems" "3.IH"(1) [OF None] show ?thesis by simp
  next
    case (Some comment)
    show ?thesis
    proof (cases "item_type comment = Some Comment")
      case False
      with "3.prems" Some "3.IH"(5) [OF Some False] show ?thesis by simp
    next
      case True
      show ?thesis
      proof (cases "item_kids comment")
        case None
        with "3.prems" Some True "3.IH"(2) [OF Some True None] show ?thesis by simp
      next
        case (Some kids)
        note k = this
        from "3.prems" \<open>x = Some comment\<close> True k obtain f where fuel: "fuel = Suc f"
          by (cases fuel) simp_all
        from "3.prems" \<open>x = Some comment\<close> True k fuel obtain q c1 where
          l: "loadCommentsRecursively f up now c kids 0 (comments @ [comment]) = Some (q, c1)"
          by (cases "loadCommentsRecursively f up now c kids 0 (comments @ [comment])") auto
        note l' = "3.IH"(3) [OF \<open>x = Some comment\<close> True k fuel l]
        show ?thesis
        proof (cases q)
          case (Inl e)
          with "3.prems" \<open>x = Some comment\<close> True k fuel l l' show ?thesis by auto
        next
          case (Inr comments1)
          with "3.prems" \<open>x = Some comment\<close> True k fuel l
          have r: "forComments fuel up now c1 rest comments1 = Some r" by simp
          from "3.IH"(4) [OF \<open>x = Some comment\<close> True k fuel l [unfolded Inr] refl refl r]
          have "forComments (Suc fuel) up now c1 rest comments1 = Some r" .
          with \<open>x = Some comment\<close> True k fuel l' Inr show ?thesis by simp
        qed
      qed
    qed
  qed
qed

lemma getCommentTree_Suc_fuel:
  assumes "getCommentTree fuel up now c itemId = Some r"
  shows "getCommentTree (Suc fuel) up now c itemId = Some r"
proof -
  obtain x c1 where g: "getItem up now c itemId = (x, c1)" by (cases "getItem up now c itemId")
  show ?thesis
  proof (cases "\<exists>item kids. x = Inr (Some item) \<and> item_kids item = Some kids")
    case True
    then obtain item kids where k: "x = Inr (Some item)" "item_kids item = Some kids" by blast
    with assms g have "loadCommentsRecursively fuel up now c1 kids 0 [] = Some r"
      by (simp add: getCommentTree_def)
    from more_fuel(1) [OF this] g k show ?thesis by (simp add: getCommentTree_def)
  next
    case False
    with assms g show ?thesis
      by (auto simp: getCommentTree_def split: sum.splits option.splits)
  qed
qed

lemma getCommentTree_more_fuel:
  assumes "getCommentTree fuel up now c itemId = Some r"
  shows "getCommentTree (fuel + n) up now c itemId = Some r"
  using assms by (induction n) (simp_all add: getCommentTree_Suc_fuel)

text \<open>
  What a returned walk has requested: when \<open>getCommentTree\<close> returns a list, it returns that
  list for every larger bound on the depth, every item in it has type comment, and the
  only items requested are the root, the kids of the root, and the kids of the comments in
  the result.
\<close>

lemma getCommentTree_requests:
  assumes "getCommentTree fuel up now c itemId = Some (Inr comments, c')"
  shows "(\<forall>n. getCommentTree (fuel + n) up now c itemId = Some (Inr comments, c')) \<and>
         (\<forall>x \<in> set comments. item_type x = Some Comment) \<and>
         set (requests c') \<subseteq> set (requests c) \<union>
           item_request (baseUrl c) `
             ({itemId} \<union>
              (case fst (getItem up now c itemId) of
                 Inr (Some item) \<Rightarrow> set (kids_of item) | _ \<Rightarrow> {}) \<union>
              (\<Union>x \<in> set comments. set (kids_of x)))"
proof -
  obtain r c1 where g: "getItem up now c itemId = (r, c1)" by (cases "getItem up now c itemId")
  note f = getItem_frame [OF g]
  have "(\<forall>x \<in> set comments. item_type x = Some Comment) \<and>
         set (requests c') \<subseteq> set (requests c) \<union>
           item_request (baseUrl c) `
             ({itemId} \<union>
              (case fst (getItem up now c itemId) of
                 Inr (Some item) \<Rightarrow> set (kids_of item) | _ \<Rightarrow> {}) \<union>
              (\<Union>x \<in> set comments. set (kids_of x)))"
  proof (cases r)
    case (Inl e)
    with assms g show ?thesis by (simp add: getCommentTree_def)
  next
    case (Inr found)
    show ?thesis
    proof (cases found)
      case None
      with assms g Inr f show ?thesis by (auto simp: getCommentTree_def)
    next
      case (Some item)
      show ?thesis
      proof (cases "item_kids item")
        case None
        with assms g Inr Some f show ?thesis by (auto simp: getCommentTree_def)
      next
        case (Some kids)
        with assms g Inr \<open>found = Some item\<close>
        have "loadCommentsRecursively fuel up now c1 kids 0 [] = Some (Inr comments, c')"
          by (simp add: getCommentTree_def)
        from load_grows(1) [OF this]
        have ty: "\<forall>x \<in> set comments. item_type x = Some Comment"
          and rq: "set (requests c') \<subseteq> set (requests c1) \<union>
             item_request (baseUrl c) ` (set kids \<union> (\<Union>x \<in> set comments. set (kids_of x)))"
          using f by (auto simp: grows_def)
        have r1: "set (requests c1) \<subseteq> set (requests c) \<union> item_request (baseUrl c) ` {itemId}"
          using f by simp
        have "set (requests c') \<subseteq> set (requests c) \<union>
             item_request (baseUrl c) `
               ({itemId} \<union> (set kids \<union> (\<Union>x \<in> set comments. set (kids_of x))))"
          by (rule image_bound_trans [OF rq r1])
        moreover have "(case fst (getItem up now c itemId) of
                 Inr (Some item) \<Rightarrow> set (kids_of item) | _ \<Rightarrow> {}) = set kids"
          using g Inr \<open>found = Some item\<close> Some by (simp add: kids_of_def)
        ultimately show ?thesis using ty by (simp add: Un_assoc)
      qed
    qed
  qed
  with getCommentTree_more_fuel [OF assms] show ?thesis by blast
qed

subsection \<open>Decimal printing is injective\<close>

lemma of_char_digit_char: "d < 10 \<Longrightarrow> of_char (digit_char d) = 48 + d"
  by (simp add: digit_char_def)

lemma digit_char_inj:
  assumes "a < 10" and "b < 10" and "digit_char a = digit_char b"
  shows "a = b"
proof -
  have "(of_char (digit_char a) :: nat) = of_char (digit_char b)" using assms(3) by simp
  with assms(1,2) show ?thesis by (simp add: of_char_digit_char)
qed

lemma digit_char_not_minus: "d < 10 \<Longrightarrow> digit_char d \<noteq> CHR ''-''"
proof
  assume "d < 10" and "digit_char d = CHR ''-''"
  then have "(of_char (digit_char d) :: nat) = of_char CHR ''-''" by simp
  with \<open>d < 10\<close> show False by (simp add: of_char_digit_char)
qed

lemma show_nat_nonempty: "show_nat n \<noteq> []"
  by (subst show_nat.simps) simp

lemma show_nat_hd_not_minus: "hd (show_nat n) \<noteq> CHR ''-''"
proof (induction n rule: show_nat.induct)
  case (1 n)
  show ?case
  proof (cases "n < 10")
    case True
    then show ?thesis by (subst show_nat.simps) (simp add: digit_char_not_minus)
  next
    case False
    with "1.IH" show_nat_nonempty [of "n div 10"] show ?thesis
      by (subst show_nat.simps) simp
  qed
qed

lemma show_nat_inj: "show_nat n = show_nat m \<Longrightarrow> n = m"
proof (induction n arbitrary: m rule: show_nat.induct)
  case (1 n)
  show ?case
  proof (cases "n < 10")
    case True
    note n = this
    show ?thesis
    proof (cases "m < 10")
      case True
      with n "1.prems" have "digit_char n = digit_char m"
        by (simp add: show_nat.simps [of n] show_nat.simps [of m])
      with n True show ?thesis by (rule digit_char_inj)
    next
      case False
      with n "1.prems" have "[digit_char n] = show_nat (m div 10) @ [digit_char (m mod 10)]"
        by (simp add: show_nat.simps [of n] show_nat.simps [of m])
      with show_nat_nonempty [of "m div 10"] show ?thesis by simp
    qed
  next
    case False
    note n = this
    show ?thesis
    proof (cases "m < 10")
      case True
      with n "1.prems" have "show_nat (n div 10) @ [digit_char (n mod 10)] = [digit_char m]"
        by (simp add: show_nat.simps [of n] show_nat.simps [of m])
      with show_nat_nonempty [of "n div 10"] show ?thesis by simp
    next
      case False
      with n "1.prems" have e: "show_nat (n div 10) = show_nat (m div 10)"
        "digit_char (n mod 10) = digit_char (m mod 10)"
        by (simp_all add: show_nat.simps [of n] show_nat.simps [of m])
      from "1.IH" [OF n e(1)] have "n div 10 = m div 10" .
      moreover have "n mod 10 = m mod 10" by (rule digit_char_inj [OF _ _ e(2)]) simp_all
      ultimately show ?thesis by (metis div_mult_mod_eq)
    qed
  qed
qed

lemma show_int_inj: "show_int i = show_int j \<Longrightarrow> i = j"
proof -
  assume e: "show_int i = show_int j"
  have neg: "hd (show_int k) = CHR ''-'' \<longleftrightarrow> k < 0" for k
    using show_nat_hd_not_minus [of "nat k"] by (simp add: show_int_def)
  from e neg [of i] neg [of j] have s: "i < 0 \<longleftrightarrow> j < 0" by simp
  show ?thesis
  proof (cases "i < 0")
    case True
    with s e have "show_nat (nat (- i)) = show_nat (nat (- j))" by (simp add: show_int_def)
    from show_nat_inj [OF this] True s show ?thesis by simp
  next
    case False
    with s e have "show_nat (nat i) = show_nat (nat j)" by (simp add: show_int_def)
    from show_nat_inj [OF this] False s show ?thesis by simp
  qed
qed

lemma item_key_inj: "item_key i = item_key j \<Longrightarrow> i = j"
  by (simp add: item_key_def show_int_inj)

subsection \<open>The flattened list of descendant comments\<close>

lemma descendant_comments_mono:
  "descendant_comments d up ids = Some cs \<Longrightarrow> d \<le> d' \<Longrightarrow> descendant_comments d' up ids = Some cs"
proof (induction d up ids arbitrary: cs d' rule: descendant_comments.induct)
  case (1 d up)
  then show ?case by simp
next
  case (2 d up i ids)
  from "2.prems"(1) have sv: "served up i" by (simp split: if_splits)
  show ?case
  proof (cases "upstream_item up i")
    case None
    with "2.prems"(1) sv have "descendant_comments d up ids = Some cs" by simp
    from "2.IH"(1) [OF _ None this "2.prems"(2)] sv
    have "descendant_comments d' up ids = Some cs" by simp
    with sv None show ?thesis by simp
  next
    case (Some item)
    show ?thesis
    proof (cases "item_type item = Some Comment")
      case False
      with "2.prems"(1) sv Some have "descendant_comments d up ids = Some cs" by simp
      from "2.IH"(2) [OF _ Some _ this "2.prems"(2)] sv False
      have "descendant_comments d' up ids = Some cs" by simp
      with sv Some False show ?thesis by simp
    next
      case True
      from "2.prems"(1) sv Some True obtain d0 where d: "d = Suc d0" by (cases d) simp_all
      from "2.prems"(2) d obtain d0' where d': "d' = Suc d0'" "d0 \<le> d0'" by (cases d') simp_all
      from "2.prems"(1) sv Some True d obtain below later where
        b: "descendant_comments d0 up (kids_of item) = Some below" and
        l: "descendant_comments d up ids = Some later" and
        cs: "cs = item # below @ later"
        by (auto split: option.splits)
      have ty: "\<not> item_type item \<noteq> Some Comment" using True by simp
      from "2.IH"(3) [OF _ Some ty d b d'(2)] sv
      have b': "descendant_comments d0' up (kids_of item) = Some below" by simp
      from "2.IH"(4) [OF _ Some ty d b l "2.prems"(2)] sv
      have l': "descendant_comments d' up ids = Some later" by simp
      from sv Some True d' b' l' cs show ?thesis by simp
    qed
  qed
qed


lemma comment_tree_depth:
  "comment_tree up ids cs \<Longrightarrow> \<exists>d. descendant_comments d up ids = Some cs"
proof (induction rule: comment_tree.induct)
  case no_ids
  then show ?case by simp
next
  case (comment i item below ids later)
  then obtain d1 d2 where d1: "descendant_comments d1 up (kids_of item) = Some below"
    and d2: "descendant_comments d2 up ids = Some later" by blast
  let ?d = "max (Suc d1) d2"
  have "descendant_comments (max d1 (d2 - 1)) up (kids_of item) = Some below"
    by (rule descendant_comments_mono [OF d1]) simp
  moreover have "descendant_comments (Suc (max d1 (d2 - 1))) up ids = Some later"
    by (rule descendant_comments_mono [OF d2]) simp
  ultimately have "descendant_comments (Suc (max d1 (d2 - 1))) up (i # ids) = Some (item # below @ later)"
    using comment.hyps(1,2,3) by simp
  then show ?case by blast
next
  case (no_comment i ids later)
  then obtain d where "descendant_comments d up ids = Some later" by blast
  with no_comment.hyps(1,2) have "descendant_comments d up (i # ids) = Some later"
    by (cases "upstream_item up i") simp_all
  then show ?case by blast
qed


lemma descendant_comments_tree:
  "descendant_comments d up ids = Some cs \<Longrightarrow> comment_tree up ids cs"
proof (induction d up ids arbitrary: cs rule: descendant_comments.induct)
  case (1 d up)
  then show ?case by (simp add: comment_tree.no_ids)
next
  case (2 d up i ids)
  from "2.prems"(1) have sv: "served up i" by (simp split: if_splits)
  show ?case
  proof (cases "upstream_item up i")
    case None
    with "2.prems" sv have "descendant_comments d up ids = Some cs" by simp
    from "2.IH"(1) [OF _ None this] sv have "comment_tree up ids cs" by simp
    with sv None show ?thesis by (intro comment_tree.no_comment) simp_all
  next
    case (Some item)
    show ?thesis
    proof (cases "item_type item = Some Comment")
      case False
      with "2.prems" sv Some have "descendant_comments d up ids = Some cs" by simp
      from "2.IH"(2) [OF _ Some _ this] sv False have "comment_tree up ids cs" by simp
      with sv Some False show ?thesis by (intro comment_tree.no_comment) simp_all
    next
      case True
      from "2.prems"(1) sv Some True obtain d0 where d: "d = Suc d0" by (cases d) simp_all
      from "2.prems"(1) sv Some True d obtain below later where
        b: "descendant_comments d0 up (kids_of item) = Some below" and
        l: "descendant_comments d up ids = Some later" and
        cs: "cs = item # below @ later"
        by (auto split: option.splits)
      have ty: "\<not> item_type item \<noteq> Some Comment" using True by simp
      from "2.IH"(3) [OF _ Some ty d b] sv have tb: "comment_tree up (kids_of item) below" by simp
      from "2.IH"(4) [OF _ Some ty d b l] sv have tl: "comment_tree up ids later" by simp
      from comment_tree.comment [OF sv Some True tb tl] cs show ?thesis by simp
    qed
  qed
qed


lemma comment_tree_served:
  "comment_tree up ids cs \<Longrightarrow> \<forall>i \<in> set ids. served up i"
  by (induction rule: comment_tree.induct) simp_all

lemma descendant_comments_served:
  "descendant_comments d up ids = Some cs \<Longrightarrow> \<forall>i \<in> set ids. served up i"
  by (rule comment_tree_served [OF descendant_comments_tree])

lemma descendant_comments_append:
  "descendant_comments d up (xs @ ys)
     = (case descendant_comments d up xs of
          None \<Rightarrow> None
        | Some a \<Rightarrow> (case descendant_comments d up ys of None \<Rightarrow> None | Some b \<Rightarrow> Some (a @ b)))"
proof (induction xs)
  case Nil
  then show ?case by (simp split: option.splits)
next
  case (Cons x xs)
  show ?case
  proof (cases "served up x")
    case False
    then show ?thesis by simp
  next
    case True
    note sv = this
    show ?thesis
    proof (cases "upstream_item up x")
      case None
      with sv Cons.IH show ?thesis by simp
    next
      case (Some item)
      show ?thesis
      proof (cases "item_type item = Some Comment")
        case False
        with sv Some Cons.IH show ?thesis by simp
      next
        case True
        show ?thesis
        proof (cases d)
          case 0
          with sv Some True show ?thesis by simp
        next
          case (Suc d')
          show ?thesis
          proof (cases "descendant_comments d' up (kids_of item)")
            case None
            with sv Some True Suc show ?thesis by simp
          next
            case (Some below)
            with sv \<open>upstream_item up x = Some item\<close> True Suc Cons.IH show ?thesis
              by (cases "descendant_comments (Suc d') up xs";
                  cases "descendant_comments (Suc d') up ys") simp_all
          qed
        qed
      qed
    qed
  qed
qed

subsection \<open>A cache that agrees with the upstream\<close>

lemma set_update_subset: "set (AList.update k v al) \<subseteq> insert (k, v) (set al)"
  by (induction al) auto

lemma set_delete_subset: "set (AList.delete k al) \<subseteq> set al"
  by (auto simp: AList.delete_eq)

lemma set_cleanup_subset: "set (cache (cleanup now c)) \<subseteq> set (cache c)"
  by (auto simp: cleanup_def)

lemma set_evict_oldest_subset: "set (cache (evict_oldest c)) \<subseteq> set (cache c)"
proof (cases "cache c")
  case Nil
  then show ?thesis by (simp add: evict_oldest_def)
next
  case (Cons first rest)
  obtain k e where "first = (k, e)" by (cases first)
  with Cons set_delete_subset [of k "cache c"] show ?thesis
    by (auto simp: evict_oldest_def)
qed

lemma set_cache_set_subset:
  "set (cache (SimpleCache_set now key v c))
     \<subseteq> insert (key, \<lparr>entry_value = v, expiresAt = now + ttlMs c\<rparr>) (set (cache c))"
proof (cases "maxSize c = 0 \<or> ttlMs c = 0")
  case True
  then show ?thesis by (auto simp: SimpleCache_set_def)
next
  case False
  define c1 where "c1 = (if int (length (cache c)) \<ge> maxSize c then cleanup now c else c)"
  define c2 where "c2 = (if int (length (cache c1)) \<ge> maxSize c1 then evict_oldest c1 else c1)"
  have s1: "set (cache c1) \<subseteq> set (cache c)" using set_cleanup_subset [of now c] by (simp add: c1_def)
  have s2: "set (cache c2) \<subseteq> set (cache c1)" using set_evict_oldest_subset [of c1] by (simp add: c2_def)
  have "cache (SimpleCache_set now key v c)
          = AList.update key \<lparr>entry_value = v, expiresAt = now + ttlMs c\<rparr> (cache c2)"
    using False by (simp add: SimpleCache_set_def Let_def c1_def c2_def)
  with set_update_subset [of key "\<lparr>entry_value = v, expiresAt = now + ttlMs c\<rparr>" "cache c2"] s1 s2
  show ?thesis by auto
qed

lemma get_subset:
  "SimpleCache_get now key c = (r, c') \<Longrightarrow> set (cache c') \<subseteq> set (cache c)"
  using set_delete_subset [of key "cache c"]
  by (auto simp: SimpleCache_get_def split: option.splits if_splits)

lemma get_Some_entry:
  assumes "SimpleCache_get now key c = (Some v, c')"
  shows "c' = c \<and> (\<exists>e. (key, e) \<in> set (cache c) \<and> \<not> now > expiresAt e \<and> entry_value e = v)"
  using assms
  by (auto simp: SimpleCache_get_def split: option.splits if_splits dest: map_of_SomeD)

lemma coherent_subset:
  assumes "coherent up now c" and "set (cache (itemCache c')) \<subseteq> set (cache (itemCache c))"
  shows "coherent up now c'"
  using assms unfolding coherent_def by blast

lemma served_fetch:
  assumes "served up i"
  shows "fst (fetchWithTimeout c url (item_response up i)) = Inr (Json (upstream_item up i))"
  using assms
  by (auto simp: served_def upstream_item_def fetchWithTimeout_def split: outcome.splits body.splits)

lemma getItem_start_coherent:
  assumes co: "coherent up now c" and sv: "served up i"
    and st: "getItem_start up now c i = (p, c')"
  shows "coherent up now c' \<and> started_ok up i p"
proof -
  obtain r ic where g: "SimpleCache_get now (item_key i) (itemCache c) = (r, ic)"
    by (cases "SimpleCache_get now (item_key i) (itemCache c)")
  note sub = get_subset [OF g]
  show ?thesis
  proof (cases r)
    case None
    with st g have p: "p = Miss (fst (fetchWithTimeout (c\<lparr>itemCache := ic\<rparr>) (item_request (baseUrl c) i) (item_response up i)))"
      and c': "itemCache c' = ic"
      by (auto simp: getItem_start_def fetchWithTimeout_def split: prod.splits)
    from p served_fetch [OF sv] have "started_ok up i p" by (simp add: started_ok_def)
    moreover have "coherent up now c'" by (rule coherent_subset [OF co]) (use c' sub in simp)
    ultimately show ?thesis by simp
  next
    case (Some v)
    with st g have p: "p = Hit v" and c': "itemCache c' = ic" by (auto simp: getItem_start_def)
    from get_Some_entry [OF g [unfolded Some]] obtain e where
      e: "(item_key i, e) \<in> set (cache (itemCache c))" "\<not> now > expiresAt e" "entry_value e = v"
      by blast
    from co e have "upstream_item up i = Some v" unfolding coherent_def by blast
    with p have "started_ok up i p" by (simp add: started_ok_def)
    moreover have "coherent up now c'" by (rule coherent_subset [OF co]) (use c' sub in simp)
    ultimately show ?thesis by simp
  qed
qed

lemma getItem_finish_coherent:
  assumes co: "coherent up now c"
  shows "\<exists>c'. getItem_finish now c i (Inr (Json (upstream_item up i))) = (Inr (upstream_item up i), c') \<and>
              coherent up now c'"
proof (cases "upstream_item up i")
  case None
  with co show ?thesis by (simp add: getItem_finish_def parse_json_def)
next
  case (Some item)
  let ?c' = "c\<lparr>itemCache := SimpleCache_set now (item_key i) item (itemCache c)\<rparr>"
  have "coherent up now ?c'"
    unfolding coherent_def
  proof (intro ballI, clarify)
    fix k e j
    assume in_set: "(item_key j, e) \<in> set (cache (itemCache ?c'))" and fresh: "\<not> now > expiresAt e"
    from in_set set_cache_set_subset [of now "item_key i" item "itemCache c"]
    have "(item_key j, e) = (item_key i, \<lparr>entry_value = item, expiresAt = now + ttlMs (itemCache c)\<rparr>)
          \<or> (item_key j, e) \<in> set (cache (itemCache c))"
      by auto
    then show "upstream_item up j = Some (entry_value e)"
    proof
      assume "(item_key j, e) = (item_key i, \<lparr>entry_value = item, expiresAt = now + ttlMs (itemCache c)\<rparr>)"
      then have "j = i" and "entry_value e = item" by (auto dest: item_key_inj)
      with Some show ?thesis by simp
    next
      assume "(item_key j, e) \<in> set (cache (itemCache c))"
      with co fresh show ?thesis unfolding coherent_def by blast
    qed
  qed
  with Some show ?thesis by (simp add: getItem_finish_def parse_json_def)
qed

lemma getItem_coherent:
  assumes co: "coherent up now c" and sv: "served up i"
  shows "\<exists>c'. getItem up now c i = (Inr (upstream_item up i), c') \<and> coherent up now c'"
proof -
  obtain p c1 where st: "getItem_start up now c i = (p, c1)" by (cases "getItem_start up now c i")
  note s = getItem_start_coherent [OF co sv st]
  show ?thesis
  proof (cases p)
    case (Hit v)
    with s st show ?thesis by (simp add: getItem_def started_ok_def)
  next
    case (Miss r)
    with s have r: "r = Inr (Json (upstream_item up i))" by (simp add: started_ok_def)
    from getItem_finish_coherent [of up now c1 i] s obtain c' where
      "getItem_finish now c1 i (Inr (Json (upstream_item up i))) = (Inr (upstream_item up i), c')"
      "coherent up now c'" by blast
    with st Miss r show ?thesis by (simp add: getItem_def)
  qed
qed

lemma start_all_coherent:
  assumes "coherent up now c" and "\<forall>i \<in> set ids. served up i"
    and "start_all up now c ids = (ps, c')"
  shows "coherent up now c' \<and> list_all2 (started_ok up) ids ps"
  using assms
proof (induction ids arbitrary: c ps c')
  case Nil
  then show ?case by simp
next
  case (Cons i ids)
  obtain p c1 where s: "getItem_start up now c i = (p, c1)" by (cases "getItem_start up now c i")
  obtain ps' c2 where r: "start_all up now c1 ids = (ps', c2)" by (cases "start_all up now c1 ids")
  from Cons.prems(3) s r have eq: "ps = p # ps'" "c' = c2" by auto
  from Cons.prems(2) have sv: "served up i" "\<forall>i \<in> set ids. served up i" by simp_all
  note a = getItem_start_coherent [OF Cons.prems(1) sv(1) s]
  from Cons.IH [OF _ sv(2) r] a eq show ?case by simp
qed

lemma finish_all_coherent:
  assumes "coherent up now c" and "list_all2 (started_ok up) ids ps"
  shows "\<exists>c'. finish_all now c (zip ids ps) = (map (\<lambda>i. Inr (upstream_item up i)) ids, c') \<and>
              coherent up now c'"
  using assms(2,1)
proof (induction arbitrary: c rule: list_all2_induct)
  case Nil
  then show ?case by simp
next
  case (Cons i ids p ps)
  show ?case
  proof (cases p)
    case (Hit v)
    with Cons.hyps(1) have v: "upstream_item up i = Some v" by (simp add: started_ok_def)
    from Cons.IH [OF Cons.prems] obtain c' where
      "finish_all now c (zip ids ps) = (map (\<lambda>i. Inr (upstream_item up i)) ids, c')"
      "coherent up now c'" by blast
    with Hit v show ?thesis by simp
  next
    case (Miss r)
    with Cons.hyps(1) have r: "r = Inr (Json (upstream_item up i))" by (simp add: started_ok_def)
    from getItem_finish_coherent [OF Cons.prems, of i] obtain c1 where
      f: "getItem_finish now c i (Inr (Json (upstream_item up i))) = (Inr (upstream_item up i), c1)"
      and co1: "coherent up now c1" by blast
    from Cons.IH [OF co1] obtain c' where
      "finish_all now c1 (zip ids ps) = (map (\<lambda>i. Inr (upstream_item up i)) ids, c')"
      "coherent up now c'" by blast
    with Miss r f show ?thesis by simp
  qed
qed

lemma all_settled_Inr: "all_settled (map (\<lambda>i. Inr (f i)) ids) = Inr (map f ids)"
  by (induction ids) simp_all

lemma Promise_all_getItem_coherent:
  assumes "coherent up now c" and "\<forall>i \<in> set ids. served up i"
  shows "\<exists>c'. Promise_all_getItem up now c ids = (Inr (map (upstream_item up) ids), c') \<and>
              coherent up now c'"
proof -
  obtain ps c1 where s: "start_all up now c ids = (ps, c1)" by (cases "start_all up now c ids")
  note a = start_all_coherent [OF assms s]
  from finish_all_coherent [of up now c1 ids ps] a obtain c' where
    f: "finish_all now c1 (zip ids ps) = (map (\<lambda>i. Inr (upstream_item up i)) ids, c')"
    and co: "coherent up now c'" by blast
  from s f co show ?thesis by (simp add: Promise_all_getItem_def all_settled_Inr)
qed

subsection \<open>The walk computes the flattened list\<close>

lemma load_descendants:
  shows "coherent up now c \<Longrightarrow> descendant_comments fuel up (drop i kidIds) = Some cs \<Longrightarrow>
           \<exists>c'. loadCommentsRecursively fuel up now c kidIds i comments
                  = Some (Inr (comments @ cs), c') \<and> coherent up now c'"
    and "coherent up now c \<Longrightarrow> items = map (upstream_item up) ids \<Longrightarrow>
           descendant_comments fuel up ids = Some cs \<Longrightarrow>
           \<exists>c'. forComments fuel up now c items comments
                  = Some (Inr (comments @ cs), c') \<and> coherent up now c'"
proof (induction fuel up now c kidIds i comments and fuel up now c items comments
       arbitrary: cs and ids cs
       rule: loadCommentsRecursively_forComments.induct)
  case (1 fuel up now c kidIds i comments)
  show ?case
  proof (cases "i < length kidIds")
    case False
    with "1.prems" show ?thesis
      by (simp add: loadCommentsRecursively.simps [of fuel up now c kidIds i comments])
  next
    case True
    let ?batch = "take 5 (drop i kidIds)"
    have split: "drop i kidIds = ?batch @ drop (i + 5) kidIds"
      by (metis add.commute append_take_drop_id drop_drop)
    from "1.prems"(2) obtain cs1 cs2 where
      d1: "descendant_comments fuel up ?batch = Some cs1" and
      d2: "descendant_comments fuel up (drop (i + 5) kidIds) = Some cs2" and
      cs: "cs = cs1 @ cs2"
      by (subst (asm) split) (auto simp: descendant_comments_append split: option.splits)
    from Promise_all_getItem_coherent [OF "1.prems"(1) descendant_comments_served [OF d1]]
    obtain c1 where p: "Promise_all_getItem up now c ?batch = (Inr (map (upstream_item up) ?batch), c1)"
      and co1: "coherent up now c1" by blast
    have p': "(Inr (map (upstream_item up) ?batch), c1) = Promise_all_getItem up now c ?batch"
      using p by simp
    from "1.IH"(1) [OF True p' refl co1 refl d1] obtain c2 where
      f: "forComments fuel up now c1 (map (upstream_item up) ?batch) comments
            = Some (Inr (comments @ cs1), c2)" and co2: "coherent up now c2" by blast
    from "1.IH"(2) [OF True p' refl f refl refl co2 d2] obtain c' where
      l: "loadCommentsRecursively fuel up now c2 kidIds (i + 5) (comments @ cs1)
            = Some (Inr ((comments @ cs1) @ cs2), c')" and co': "coherent up now c'" by blast
    from True p f l cs co' show ?thesis
      by (simp add: loadCommentsRecursively.simps [of fuel up now c kidIds i comments])
  qed
next
  case (2 fuel up now c comments)
  then show ?case by simp
next
  case (3 fuel up now c x rest comments)
  from "3.prems"(2) obtain i ids' where ids: "ids = i # ids'" and x: "x = upstream_item up i"
    and rest: "rest = map (upstream_item up) ids'" by (cases ids) auto
  from "3.prems"(3) ids have sv: "served up i" by (simp split: if_splits)
  show ?case
  proof (cases x)
    case None
    with x have "upstream_item up i = None" by simp
    with "3.prems"(3) ids sv have d: "descendant_comments fuel up ids' = Some cs" by simp
    from "3.IH"(1) [OF None "3.prems"(1) rest d] None show ?thesis by simp
  next
    case (Some comment)
    with x have ui: "upstream_item up i = Some comment" by simp
    show ?thesis
    proof (cases "item_type comment = Some Comment")
      case False
      with "3.prems"(3) ids ui sv have d: "descendant_comments fuel up ids' = Some cs" by simp
      from "3.IH"(5) [OF Some False "3.prems"(1) rest d] Some False show ?thesis by simp
    next
      case True
      from "3.prems"(3) ids ui sv True obtain f where fuel: "fuel = Suc f"
        by (cases fuel) simp_all
      from "3.prems"(3) ids ui sv True fuel obtain below later where
        b: "descendant_comments f up (kids_of comment) = Some below" and
        l: "descendant_comments fuel up ids' = Some later" and
        cs: "cs = comment # below @ later"
        by (auto split: option.splits)
      show ?thesis
      proof (cases "item_kids comment")
        case None
        with b have "below = []" by (simp add: kids_of_def)
        with cs have cs': "comments @ cs = (comments @ [comment]) @ later" by simp
        from "3.IH"(2) [OF Some True None "3.prems"(1) rest l] Some True None cs'
        show ?thesis by simp
      next
        case (Some kids)
        note k = this
        with b have b': "descendant_comments f up (drop 0 kids) = Some below"
          by (simp add: kids_of_def)
        from "3.IH"(3) [OF \<open>x = Some comment\<close> True k fuel "3.prems"(1) b'] obtain c1 where
          ld: "loadCommentsRecursively f up now c kids 0 (comments @ [comment])
                 = Some (Inr ((comments @ [comment]) @ below), c1)" and
          co1: "coherent up now c1" by blast
        from "3.IH"(4) [OF \<open>x = Some comment\<close> True k fuel ld refl refl co1 rest l] obtain c' where
          fr: "forComments fuel up now c1 rest ((comments @ [comment]) @ below)
                 = Some (Inr (((comments @ [comment]) @ below) @ later), c')" and
          co': "coherent up now c'" by blast
        from \<open>x = Some comment\<close> True k fuel ld fr cs co' show ?thesis by simp
      qed
    qed
  qed
qed

text \<open>
  Claim C3, as the code has it. The item cache agrees with the upstream, the request for
  the root succeeds, and the comments below the root's kids form a finite tree with the
  flattened list \<open>comments\<close>, in which an item that is absent or not a comment is left out
  together with everything below it. Then \<open>getCommentTree\<close> returns exactly \<open>comments\<close>, for
  every bound on the depth of the recursion from some bound on; every item of the list has
  type comment; and the only items requested are the root, the kids of the root and the
  kids of the comments in the list. The test on the type guards both the \<^verbatim>\<open>push\<close> and the
  recursion into \<^verbatim>\<open>comment.kids\<close>: the kids of a fetched item that is not a comment are not
  traversed.
\<close>

theorem getCommentTree_flattens:
  assumes co: "coherent up now c" and sv: "served up itemId"
    and tree: "comment_tree up (root_kids up itemId) comments"
  shows "(\<exists>d. \<forall>fuel \<ge> d. \<exists>c'.
            getCommentTree fuel up now c itemId = Some (Inr comments, c') \<and>
            set (requests c') \<subseteq> set (requests c) \<union>
              item_request (baseUrl c) `
                ({itemId} \<union> set (root_kids up itemId) \<union> (\<Union>x \<in> set comments. set (kids_of x)))) \<and>
         (\<forall>x \<in> set comments. item_type x = Some Comment)"
proof (intro conjI)
  from comment_tree_depth [OF tree] obtain d where
    d: "descendant_comments d up (root_kids up itemId) = Some comments" by blast
  from getItem_coherent [OF co sv] obtain c1 where
    g: "getItem up now c itemId = (Inr (upstream_item up itemId), c1)" and
    co1: "coherent up now c1" by blast
  have rk: "(case fst (getItem up now c itemId) of
               Inr (Some item) \<Rightarrow> set (kids_of item) | _ \<Rightarrow> {}) = set (root_kids up itemId)"
    using g by (simp add: root_kids_def split: option.splits)
  have "\<exists>c'. getCommentTree fuel up now c itemId = Some (Inr comments, c') \<and>
            set (requests c') \<subseteq> set (requests c) \<union>
              item_request (baseUrl c) `
                ({itemId} \<union> set (root_kids up itemId) \<union> (\<Union>x \<in> set comments. set (kids_of x)))"
    if "d \<le> fuel" for fuel
  proof -
    from descendant_comments_mono [OF d that]
    have df: "descendant_comments fuel up (root_kids up itemId) = Some comments" .
    have "\<exists>c'. getCommentTree fuel up now c itemId = Some (Inr comments, c')"
    proof (cases "\<exists>item kids. upstream_item up itemId = Some item \<and> item_kids item = Some kids")
      case True
      then obtain item kids where k: "upstream_item up itemId = Some item" "item_kids item = Some kids"
        by blast
      with df have "descendant_comments fuel up (drop 0 kids) = Some comments"
        by (simp add: root_kids_def kids_of_def)
      from load_descendants(1) [OF co1 this, of "[]"] g k show ?thesis
        by (auto simp: getCommentTree_def)
    next
      case False
      then have "root_kids up itemId = []"
        by (auto simp: root_kids_def kids_of_def split: option.splits)
      with df have "comments = []" by simp
      with g False show ?thesis
        by (auto simp: getCommentTree_def split: option.splits)
    qed
    then obtain c' where r: "getCommentTree fuel up now c itemId = Some (Inr comments, c')" by blast
    from getCommentTree_requests [OF r] rk r show ?thesis by simp
  qed
  then show "\<exists>d. \<forall>fuel \<ge> d. \<exists>c'.
            getCommentTree fuel up now c itemId = Some (Inr comments, c') \<and>
            set (requests c') \<subseteq> set (requests c) \<union>
              item_request (baseUrl c) `
                ({itemId} \<union> set (root_kids up itemId) \<union> (\<Union>x \<in> set comments. set (kids_of x)))"
    by blast
next
  show "\<forall>x \<in> set comments. item_type x = Some Comment"
    using tree by (induction rule: comment_tree.induct) auto
qed

theorem getCommentTree_flattens_witness:
  "(\<exists>d. \<forall>fuel \<ge> d. \<exists>c'.
      getCommentTree fuel comment_tree_upstream 0 test_client 123
        = Some (Inr [comment_456, comment_789, comment_101], c')) \<and>
   (\<exists>d. \<forall>fuel \<ge> d. \<exists>c'.
      getCommentTree fuel poll_tree_upstream 0 test_client 1 = Some (Inr [], c')) \<and>
   map_option fst (getCommentTree 1 comment_tree_upstream 0 test_client 123)
     = Some (Inr [comment_456, comment_789, comment_101])"
proof -
  have co: "coherent up 0 test_client" for up
    by (simp add: coherent_def test_client_def new_HackerNewsClient_def new_SimpleCache_def)
  have sv: "served comment_tree_upstream 123" "served poll_tree_upstream 1"
    by code_simp+
  have "descendant_comments 2 comment_tree_upstream (root_kids comment_tree_upstream 123)
          = Some [comment_456, comment_789, comment_101]"
    by code_simp
  then have t1: "comment_tree comment_tree_upstream (root_kids comment_tree_upstream 123)
                   [comment_456, comment_789, comment_101]"
    by (rule descendant_comments_tree)
  have "descendant_comments 0 poll_tree_upstream (root_kids poll_tree_upstream 1) = Some []"
    by code_simp
  then have t2: "comment_tree poll_tree_upstream (root_kids poll_tree_upstream 1) []"
    by (rule descendant_comments_tree)
  have e: "map_option fst (getCommentTree 1 comment_tree_upstream 0 test_client 123)
             = Some (Inr [comment_456, comment_789, comment_101])"
    by code_simp
  from getCommentTree_flattens [OF co sv(1) t1, THEN conjunct1]
  have a: "\<exists>d. \<forall>fuel \<ge> d. \<exists>c'.
      getCommentTree fuel comment_tree_upstream 0 test_client 123
        = Some (Inr [comment_456, comment_789, comment_101], c')"
    by blast
  from getCommentTree_flattens [OF co sv(2) t2, THEN conjunct1]
  have b: "\<exists>d. \<forall>fuel \<ge> d. \<exists>c'.
      getCommentTree fuel poll_tree_upstream 0 test_client 1 = Some (Inr [], c')"
    by blast
  from a b e show ?thesis by blast
qed

text \<open>
  Claim C3 as stated (the kids of a fetched non-comment are still traversed) fails: the
  story 1 has the poll 2 as its kid, and the comment 3 is a kid of 2. The walk requests 1
  and 2 and stops; 3 is never requested and the result is empty.
\<close>

theorem getCommentTree_skips_kids_of_non_comment_counterexample:
  "map_option (\<lambda>(r, c'). (r, requests c')) (getCommentTree 5 poll_tree_upstream 0 test_client 1)
     = Some (Inr [], [''https://hacker-news.firebaseio.com/v0/item/1.json'',
                      ''https://hacker-news.firebaseio.com/v0/item/2.json''])"
  by code_simp

subsection \<open>Not found is not an error\<close>

text \<open>
  Claim C9. When the item fetched by \<open>getStoryWithMetadata\<close> is absent (\<open>null\<close>), or is an
  item whose type is not story, the operation returns \<open>null\<close> and does not throw; when
  the user fetched by \<open>getUserWithStats\<close> is absent, that operation returns \<open>null\<close> and
  does not throw. A returned \<open>null\<close> is \<open>Inr None\<close>, a thrown error is \<open>Inl\<close>.
\<close>

theorem composite_not_found_is_null:
  "(fst (getItem up now c i) = Inr None \<longrightarrow> fst (getStoryWithMetadata up now c i) = Inr None) \<and>
   (\<forall>item. fst (getItem up now c i) = Inr (Some item) \<and> item_type item \<noteq> Some Story \<longrightarrow>
      fst (getStoryWithMetadata up now c i) = Inr None) \<and>
   (fst (getUser up now c u) = Inr None \<longrightarrow> fst (getUserWithStats up now c u) = Inr None)"
proof (intro conjI allI impI)
  assume "fst (getItem up now c i) = Inr None"
  then show "fst (getStoryWithMetadata up now c i) = Inr None"
    by (cases "getItem up now c i") (simp add: getStoryWithMetadata_def)
next
  fix item
  assume "fst (getItem up now c i) = Inr (Some item) \<and> item_type item \<noteq> Some Story"
  then show "fst (getStoryWithMetadata up now c i) = Inr None"
    by (cases "getItem up now c i") (simp add: getStoryWithMetadata_def)
next
  assume "fst (getUser up now c u) = Inr None"
  then show "fst (getUserWithStats up now c u) = Inr None"
    by (cases "getUser up now c u") (simp add: getUserWithStats_def)
qed

theorem composite_not_found_is_null_witness:
  "fst (getItem comment_upstream 0 test_client 123) = Inr (Some test_comment) \<and>
   item_type test_comment \<noteq> Some Story \<and>
   fst (getStoryWithMetadata comment_upstream 0 test_client 123) = Inr None \<and>
   fst (getUser comment_upstream 0 test_client ''nobody'') = Inr None \<and>
   fst (getUserWithStats comment_upstream 0 test_client ''nobody'') = Inr None"
proof -
  have a: "fst (getItem comment_upstream 0 test_client 123) = Inr (Some test_comment)"
    by code_simp
  have a': "item_type test_comment \<noteq> Some Story"
    by (simp add: test_comment_def)
  have d: "fst (getUser comment_upstream 0 test_client ''nobody'') = Inr None"
    by code_simp
  note t = composite_not_found_is_null [of comment_upstream 0 test_client 123 "''nobody''"]
  from t a a' have s: "fst (getStoryWithMetadata comment_upstream 0 test_client 123) = Inr None"
    by blast
  from t d have u: "fst (getUserWithStats comment_upstream 0 test_client ''nobody'') = Inr None"
    by blast
  from a a' d s u show ?thesis by blast
qed

subsection \<open>One request for two calls\<close>

lemma get_miss_absent:
  assumes "SimpleCache_get now key c = (None, c')"
  shows "map_of (cache c') key = None"
  using assms by (auto simp: SimpleCache_get_def delete_conv' split: option.splits if_splits)

lemma get_hit:
  assumes "map_of (cache c) key = Some e" and "\<not> now > expiresAt e"
  shows "SimpleCache_get now key c = (Some (entry_value e), c)"
  using assms by (simp add: SimpleCache_get_def)

text \<open>
  Claim C7, as the code has it. The item cache has a non-zero capacity and a positive
  TTL, and the first \<open>getItem(i)\<close>, at time \<open>t1\<close>, finds nothing under \<open>item:i\<close>. If the
  upstream answers 2xx with a non-null item, the first call returns it, issues exactly
  one request and stores the item under \<open>item:i\<close> with \<open>expiresAt = t1 + ttlMs\<close>; a second
  call at a time \<open>t2\<close> up to \<open>t1 + ttlMs\<close> returns the same item and issues no request,
  whatever the upstream would answer then. If the upstream answers 2xx with \<open>null\<close>, the
  call returns \<open>null\<close> and nothing is stored under \<open>item:i\<close>.
\<close>

theorem getItem_fetches_once:
  assumes cfg: "maxSize (itemCache c) \<noteq> 0" "ttlMs (itemCache c) > 0"
    and miss: "fst (SimpleCache_get t1 (item_key i) (itemCache c)) = None"
    and ok: "response_ok status"
    and first: "getItem up t1 c i = (r1, c1)"
    and second: "getItem up' t2 c1 i = (r2, c2)"
    and within: "t2 \<le> t1 + ttlMs (itemCache c)"
  shows "(item_response up i = Response status statusText (Json (Some item)) \<longrightarrow>
            r1 = Inr (Some item) \<and>
            requests c1 = requests c @ [item_request (baseUrl c) i] \<and>
            map_of (cache (itemCache c1)) (item_key i)
              = Some \<lparr>entry_value = item, expiresAt = t1 + ttlMs (itemCache c)\<rparr> \<and>
            r2 = Inr (Some item) \<and>
            requests c2 = requests c1) \<and>
         (item_response up i = Response status statusText (Json None) \<longrightarrow>
            r1 = Inr None \<and>
            requests c1 = requests c @ [item_request (baseUrl c) i] \<and>
            map_of (cache (itemCache c1)) (item_key i) = None)"
proof -
  obtain ic where g: "SimpleCache_get t1 (item_key i) (itemCache c) = (None, ic)"
    using miss by (cases "SimpleCache_get t1 (item_key i) (itemCache c)") simp
  note conf = SimpleCache_get_config [OF g]
  have absent: "map_of (cache ic) (item_key i) = None" by (rule get_miss_absent [OF g])
  show ?thesis
  proof (intro conjI impI)
    assume resp: "item_response up i = Response status statusText (Json None)"
    with first g ok have c1: "r1 = Inr None" "c1 = c\<lparr>itemCache := ic, requests := requests c @ [item_request (baseUrl c) i]\<rparr>"
      by (auto simp: getItem_def getItem_start_def getItem_finish_def fetchWithTimeout_def parse_json_def)
    show "r1 = Inr None" by (rule c1(1))
    show "requests c1 = requests c @ [item_request (baseUrl c) i]" using c1(2) by simp
    show "map_of (cache (itemCache c1)) (item_key i) = None" using c1(2) absent by simp
  next
    assume resp: "item_response up i = Response status statusText (Json (Some item))"
    with first g ok have c1: "r1 = Inr (Some item)"
      "c1 = c\<lparr>itemCache := SimpleCache_set t1 (item_key i) item ic,
              requests := requests c @ [item_request (baseUrl c) i]\<rparr>"
      by (auto simp: getItem_def getItem_start_def getItem_finish_def fetchWithTimeout_def parse_json_def)
    have stored: "map_of (cache (itemCache c1)) (item_key i)
              = Some \<lparr>entry_value = item, expiresAt = t1 + ttlMs (itemCache c)\<rparr>"
      using set_stores [of ic t1 "item_key i" item] cfg conf c1(2) by simp
    have "SimpleCache_get t2 (item_key i) (itemCache c1) = (Some item, itemCache c1)"
      using get_hit [OF stored, of t2] within by simp
    with second have c2: "r2 = Inr (Some item)" "c2 = c1"
      by (auto simp: getItem_def getItem_start_def)
    show "r1 = Inr (Some item)" by (rule c1(1))
    show "requests c1 = requests c @ [item_request (baseUrl c) i]" using c1(2) by simp
    show "map_of (cache (itemCache c1)) (item_key i)
              = Some \<lparr>entry_value = item, expiresAt = t1 + ttlMs (itemCache c)\<rparr>" by (rule stored)
    show "r2 = Inr (Some item)" by (rule c2(1))
    show "requests c2 = requests c1" using c2(2) by simp
  qed
qed

theorem getItem_fetches_once_witness:
  "fst (getItem search_upstream 0 test_client 123) = Inr (Some ai_story) \<and>
   requests (snd (getItem search_upstream 0 test_client 123))
     = requests test_client @ [item_request (baseUrl test_client) 123] \<and>
   fst (getItem search_upstream 60000 (snd (getItem search_upstream 0 test_client 123)) 123)
     = Inr (Some ai_story) \<and>
   requests (snd (getItem search_upstream 60000 (snd (getItem search_upstream 0 test_client 123)) 123))
     = requests (snd (getItem search_upstream 0 test_client 123)) \<and>
   fst (getItem search_upstream 0 test_client 789) = Inr None \<and>
   map_of (cache (itemCache (snd (getItem search_upstream 0 test_client 789)))) (item_key 789) = None"
proof -
  have cfg: "maxSize (itemCache test_client) \<noteq> 0" "ttlMs (itemCache test_client) > 0"
    by (simp_all add: test_client_def new_HackerNewsClient_def new_SimpleCache_def)
  have ttl: "(60000::int) \<le> 0 + ttlMs (itemCache test_client)"
    by (simp add: test_client_def new_HackerNewsClient_def new_SimpleCache_def)
  have miss: "fst (SimpleCache_get 0 (item_key i) (itemCache test_client)) = None" for i
    by (simp add: SimpleCache_get_def test_client_def new_HackerNewsClient_def new_SimpleCache_def)
  have ok: "response_ok 200" by (simp add: response_ok_def)
  have r123: "item_response search_upstream 123 = Response 200 ''OK'' (Json (Some ai_story))"
    by (simp add: search_upstream_def offline_def)
  have r789: "item_response search_upstream 789 = Response 200 ''OK'' (Json None)"
    by (simp add: search_upstream_def offline_def)
  note a = getItem_fetches_once
             [where i = 123 and up = search_upstream and up' = search_upstream and
                    statusText = "''OK''" and item = ai_story,
              OF cfg miss ok prod.collapse [symmetric] prod.collapse [symmetric] ttl]
  note b = getItem_fetches_once
             [where i = 789 and up = search_upstream and up' = search_upstream and
                    statusText = "''OK''" and item = ai_story,
              OF cfg miss ok prod.collapse [symmetric] prod.collapse [symmetric] ttl]
  from a r123 b r789 show ?thesis by blast
qed

text \<open>
  Claim C7 as stated, for every client, fails on a client built with \<open>maxSize = 0\<close>:
  \<open>set\<close> returns at once, nothing is stored, and two calls in a row issue two requests.
\<close>

theorem getItem_zero_size_cache_counterexample:
  "requests (snd (getItem search_upstream 0 (snd (getItem search_upstream 0 zero_size_client 123)) 123))
     = [''https://hacker-news.firebaseio.com/v0/item/123.json'',
        ''https://hacker-news.firebaseio.com/v0/item/123.json'']"
  by code_simp

subsection \<open>The list cache\<close>

lemma getStoryList_zero_capacity:
  assumes "maxSize (listCache c) = 0" and "cache (listCache c) = []"
  shows "maxSize (listCache (snd (getStoryList up now c ep))) = 0 \<and>
         cache (listCache (snd (getStoryList up now c ep))) = [] \<and>
         baseUrl (snd (getStoryList up now c ep)) = baseUrl c \<and>
         requests (snd (getStoryList up now c ep)) = requests c @ [baseUrl c @ ''/'' @ ep @ ''.json'']"
proof -
  have g: "SimpleCache_get now key (listCache c) = (None, listCache c)" for key
    using assms(2) by (simp add: SimpleCache_get_def)
  have s: "SimpleCache_set now key v (listCache c) = listCache c" for key v
    using assms(1) by (simp add: SimpleCache_set_def)
  show ?thesis
    using assms
    by (simp add: getStoryList_def g fetchWithTimeout_def s split: sum.splits)
qed

lemma fetch_lists_zero_capacity:
  assumes "maxSize (listCache c) = 0" and "cache (listCache c) = []"
  shows "cache (listCache (fetch_lists up c calls)) = [] \<and>
         requests (fetch_lists up c calls)
           = requests c @ map (\<lambda>(now, ep). baseUrl c @ ''/'' @ ep @ ''.json'') calls"
  using assms
proof (induction calls arbitrary: c)
  case Nil
  then show ?case by simp
next
  case (Cons call calls)
  obtain now ep where call: "call = (now, ep)" by (cases call)
  note z = getStoryList_zero_capacity [OF Cons.prems, of up now ep]
  from Cons.IH [of "snd (getStoryList up now c ep)"] z call show ?case by simp
qed

text \<open>
  Claim C8, as the code has it. The list cache is constructed with \<open>\<lfloor>M / 10\<rfloor>\<close> as its
  maximum size, \<open>M\<close> being the configured maximum (1000 when no cache options are given).
  When \<open>0 \<le> M < 10\<close> that is 0: after any sequence of story-list fetches the list cache is
  empty, and every fetch of the sequence has issued its request.
\<close>

theorem list_cache_one_tenth:
  "maxSize (listCache (new_HackerNewsClient options))
     = (case cacheOptions options of None \<Rightarrow> 1000 | Some (ttlSeconds, M) \<Rightarrow> M) div 10 \<and>
   (\<forall>ttlSeconds M. cacheOptions options = Some (ttlSeconds, M) \<and> 0 \<le> M \<and> M < 10 \<longrightarrow>
      maxSize (listCache (new_HackerNewsClient options)) = 0 \<and>
      cache (listCache (fetch_lists up (new_HackerNewsClient options) calls)) = [] \<and>
      requests (fetch_lists up (new_HackerNewsClient options) calls)
        = map (\<lambda>(now, ep). baseUrl (new_HackerNewsClient options) @ ''/'' @ ep @ ''.json'') calls)"
proof (intro conjI allI impI)
  show "maxSize (listCache (new_HackerNewsClient options))
     = (case cacheOptions options of None \<Rightarrow> 1000 | Some (ttlSeconds, M) \<Rightarrow> M) div 10"
    by (simp add: new_HackerNewsClient_def new_SimpleCache_def split: option.splits prod.splits)
next
  fix ttlSeconds M
  assume a: "cacheOptions options = Some (ttlSeconds, M) \<and> 0 \<le> M \<and> M < 10"
  then have z: "maxSize (listCache (new_HackerNewsClient options)) = 0"
    "cache (listCache (new_HackerNewsClient options)) = []"
    "requests (new_HackerNewsClient options) = []"
    by (simp_all add: new_HackerNewsClient_def new_SimpleCache_def)
  show "maxSize (listCache (new_HackerNewsClient options)) = 0" by (rule z(1))
  from fetch_lists_zero_capacity [OF z(1,2), of up calls] z(3)
  show "cache (listCache (fetch_lists up (new_HackerNewsClient options) calls)) = []"
    and "requests (fetch_lists up (new_HackerNewsClient options) calls)
        = map (\<lambda>(now, ep). baseUrl (new_HackerNewsClient options) @ ''/'' @ ep @ ''.json'') calls"
    by simp_all
qed

theorem list_cache_one_tenth_witness:
  "maxSize (listCache small_client) = 5 div 10 \<and>
   cache (listCache (fetch_lists search_upstream small_client
                       [(0, ''topstories''), (1000, ''topstories'')])) = [] \<and>
   requests (fetch_lists search_upstream small_client [(0, ''topstories''), (1000, ''topstories'')])
     = [baseUrl small_client @ ''/topstories.json'', baseUrl small_client @ ''/topstories.json'']"
proof -
  have o: "cacheOptions \<lparr>opt_baseUrl = ''https://hacker-news.firebaseio.com/v0'', opt_timeout = 5000,
        cacheOptions = Some (60, 5)\<rparr> = Some (60, 5) \<and> (0::int) \<le> 5 \<and> (5::int) < 10"
    by simp
  from list_cache_one_tenth [of "\<lparr>opt_baseUrl = ''https://hacker-news.firebaseio.com/v0'', opt_timeout = 5000,
        cacheOptions = Some (60, 5)\<rparr>" search_upstream "[(0, ''topstories''), (1000, ''topstories'')]"] o
  show ?thesis unfolding small_client_def by simp
qed

text \<open>
  Claim C8 as stated, for every \<open>M < 10\<close>, fails for a negative \<open>M\<close>. With
  \<^verbatim>\<open>maxSize = -100\<close> the list cache gets the maximum size \<open>-10\<close>, which is not 0, so \<open>set\<close>
  stores: the first fetch of the top stories keeps the list, and the second one, a second
  later, is served from the cache without a request.
\<close>

theorem list_cache_negative_size_counterexample:
  "maxSize (listCache negative_size_client) = - 10 \<and>
   requests (fetch_lists search_upstream negative_size_client
               [(0, ''topstories''), (1000, ''topstories'')])
     = [''https://hacker-news.firebaseio.com/v0/topstories.json''] \<and>
   map (\<lambda>(k, e). (k, entry_value e))
     (cache (listCache (fetch_lists search_upstream negative_size_client
                          [(0, ''topstories''), (1000, ''topstories'')])))
     = [(''list:topstories'', [123, 456, 789])]"
  by code_simp

subsection \<open>Searching the top stories\<close>





end
